theory Spec2Isabelle
  imports Main "HOL-Library.AList" "HOL-Library.Char_ord" "HOL-Library.List_Lexorder"
begin

section \<open>JSON text and JSON values\<close>

text \<open>
  The response body is modelled after lexing: a list of lexemes, white space dropped.
  \<open>json.Decoder\<close> looks at the first non-space byte of its input to decide what to
  do, and that byte is determined by the lexeme it starts. \<open>LBad\<close> stands for text
  that is no JSON lexeme. A string lexeme holds the decoded string, as UTF-8 bytes. A
  number keeps its literal: \<open>IntLit i\<close> is a literal in integer syntax denoting \<open>i\<close>,
  \<open>FracLit m e\<close> a literal with a fraction or an exponent, denoting \<open>m\<close> times ten to the
  power \<open>e\<close> (\<open>1e400\<close> is \<open>FracLit 1 400\<close>, \<open>2.5\<close> is \<open>FracLit 25 (- 1)\<close>).
\<close>

datatype numlit = IntLit int | FracLit int int

datatype lexeme =
    LBrace | RBrace | LBrack | RBrack | LColon | LComma
  | LStr string | LNum numlit | LTrue | LFalse | LNull | LBad

datatype json =
    JNull | JBool bool | JNum numlit | JStr string
  | JArr "json list" | JObj "(string \<times> json) list"

text \<open>The text of a JSON value, and of a comma-separated sequence.\<close>

fun commas :: "lexeme list list \<Rightarrow> lexeme list" where
  "commas [] = []"
| "commas [x] = x"
| "commas (x # y # ys) = x @ LComma # commas (y # ys)"

definition member_text :: "string \<times> lexeme list \<Rightarrow> lexeme list" where
  "member_text m = LStr (fst m) # LColon # snd m"

primrec render :: "json \<Rightarrow> lexeme list" where
  "render JNull = [LNull]"
| "render (JBool b) = [if b then LTrue else LFalse]"
| "render (JNum n) = [LNum n]"
| "render (JStr s) = [LStr s]"
| "render (JArr vs) = LBrack # commas (map render vs) @ [RBrack]"
| "render (JObj ms) = LBrace # commas (map member_text (map (map_prod id render) ms)) @ [RBrace]"

subsection \<open>The scanner of encoding/json\<close>

text \<open>
  \<open>Decoder.readValue\<close> runs the scanner, a pushdown automaton, from a fresh state
  until one complete value has been read, and leaves the rest of the input untouched.
  The model builds the value while it scans. \<open>EOF\<close> covers \<open>io.EOF\<close> and
  \<open>io.ErrUnexpectedEOF\<close>. The scanner of the Go releases from 1.15 on also refuses a
  value nested deeper than \<open>maxNestingDepth\<close> arrays and objects; the scanner below has no
  such limit, and \<open>nesting\<close> measures a value so that a statement can be made for the
  bodies within it.
\<close>

definition maxNestingDepth :: nat where
  "maxNestingDepth = 10000"

primrec nesting :: "json \<Rightarrow> nat" where
  "nesting JNull = 0"
| "nesting (JBool b) = 0"
| "nesting (JNum n) = 0"
| "nesting (JStr s) = 0"
| "nesting (JArr vs) = Suc (foldr max (map nesting vs) 0)"
| "nesting (JObj ms) = Suc (foldr max (map snd (map (map_prod id nesting) ms)) 0)"

datatype decerr = EOF | SyntaxError | UnmarshalTypeError | StackPanic

datatype frame = InArr "json list" | InObj "(string \<times> json) list" string

datatype expect = XValue | XValueOrEnd | XKeyOrEnd | XKey | XColon | XCommaOrEnd

fun scalar_of :: "lexeme \<Rightarrow> json option" where
  "scalar_of (LStr s) = Some (JStr s)"
| "scalar_of (LNum n) = Some (JNum n)"
| "scalar_of LTrue = Some (JBool True)"
| "scalar_of LFalse = Some (JBool False)"
| "scalar_of LNull = Some JNull"
| "scalar_of _ = None"

fun after_value :: "frame list \<Rightarrow> json \<Rightarrow> json + frame list \<times> expect" where
  "after_value [] v = Inl v"
| "after_value (InArr vs # st) v = Inr (InArr (vs @ [v]) # st, XCommaOrEnd)"
| "after_value (InObj ms k # st) v = Inr (InObj (ms @ [(k, v)]) k # st, XCommaOrEnd)"

fun value_start :: "frame list \<Rightarrow> lexeme \<Rightarrow> (json + frame list \<times> expect) option" where
  "value_start st LBrack = Some (Inr (InArr [] # st, XValueOrEnd))"
| "value_start st LBrace = Some (Inr (InObj [] [] # st, XKeyOrEnd))"
| "value_start st l = map_option (after_value st) (scalar_of l)"

fun close_arr :: "frame list \<Rightarrow> (json + frame list \<times> expect) option" where
  "close_arr (InArr vs # st) = Some (after_value st (JArr vs))"
| "close_arr _ = None"

fun close_obj :: "frame list \<Rightarrow> (json + frame list \<times> expect) option" where
  "close_obj (InObj ms k # st) = Some (after_value st (JObj ms))"
| "close_obj _ = None"

fun key_start :: "frame list \<Rightarrow> lexeme \<Rightarrow> (json + frame list \<times> expect) option" where
  "key_start (InObj ms k # st) (LStr k') = Some (Inr (InObj ms k' # st, XColon))"
| "key_start _ _ = None"

fun comma_or_end :: "frame list \<Rightarrow> lexeme \<Rightarrow> (json + frame list \<times> expect) option" where
  "comma_or_end (InArr vs # st) LComma = Some (Inr (InArr vs # st, XValue))"
| "comma_or_end (InObj ms k # st) LComma = Some (Inr (InObj ms k # st, XKey))"
| "comma_or_end st RBrack = close_arr st"
| "comma_or_end st RBrace = close_obj st"
| "comma_or_end _ _ = None"

fun step :: "frame list \<Rightarrow> expect \<Rightarrow> lexeme \<Rightarrow> (json + frame list \<times> expect) option" where
  "step st XValue l = value_start st l"
| "step st XValueOrEnd l = (if l = RBrack then close_arr st else value_start st l)"
| "step st XKeyOrEnd l = (if l = RBrace then close_obj st else key_start st l)"
| "step st XKey l = key_start st l"
| "step st XColon l = (if l = LColon then Some (Inr (st, XValue)) else None)"
| "step st XCommaOrEnd l = comma_or_end st l"

fun scan :: "frame list \<Rightarrow> expect \<Rightarrow> lexeme list \<Rightarrow> decerr + json \<times> lexeme list" where
  "scan st x [] = Inl EOF"
| "scan st x (l # ls) =
     (case step st x l of
        None \<Rightarrow> Inl SyntaxError
      | Some (Inl v) \<Rightarrow> Inr (v, ls)
      | Some (Inr (st', x')) \<Rightarrow> scan st' x' ls)"

definition readValue :: "lexeme list \<Rightarrow> decerr + json \<times> lexeme list" where
  "readValue ls = scan [] XValue ls"

section \<open>Go values\<close>

text \<open>
  What \<open>Unmarshal\<close> stores in an \<open>interface{}\<close>: nil, a bool, a float64, a string, a
  slice or a map. A map is represented by its association list sorted by key, without
  duplicate keys (a later member of the JSON object replaces an earlier one of the same
  name); the encoder writes a map with its keys sorted. A float64 is represented by a
  literal that denotes it; rounding is not modelled, the range is: \<open>strconv.ParseFloat\<close>
  reports a range error for a literal whose value rounds to an infinity, which is a
  value of magnitude \<open>2^1024 - 2^970\<close> or more, and \<open>Unmarshal\<close> then returns an
  \<open>UnmarshalTypeError\<close> and stores nil for the number (inside an array or an object) or
  leaves the variable as it was (a number on its own).
\<close>

definition float64_limit :: int where
  "float64_limit = 2 ^ 1024 - 2 ^ 970"

fun fits_float64 :: "numlit \<Rightarrow> bool" where
  "fits_float64 (IntLit i) = (\<bar>i\<bar> < float64_limit)"
| "fits_float64 (FracLit m e) =
     (if 0 \<le> e then \<bar>m\<bar> * 10 ^ nat e < float64_limit
      else \<bar>m\<bar> < float64_limit * 10 ^ nat (- e))"

datatype goval =
    GNil | GBool bool | GFloat numlit | GString string
  | GSlice "goval list" | GMap "(string \<times> goval) list"

definition store_all :: "(string \<times> goval) list \<Rightarrow> (string \<times> goval) list" where
  "store_all ms = foldl (\<lambda>m kv. AList.update (fst kv) (snd kv) m) [] ms"

primrec toIface :: "json \<Rightarrow> goval" where
  "toIface JNull = GNil"
| "toIface (JBool b) = GBool b"
| "toIface (JNum n) = (if fits_float64 n then GFloat n else GNil)"
| "toIface (JStr s) = GString s"
| "toIface (JArr vs) = GSlice (map toIface vs)"
| "toIface (JObj ms) = GMap (sort_key fst (store_all (map (map_prod id toIface) ms)))"

primrec fits :: "json \<Rightarrow> bool" where
  "fits JNull = True"
| "fits (JBool b) = True"
| "fits (JNum n) = fits_float64 n"
| "fits (JStr s) = True"
| "fits (JArr vs) = list_all (\<lambda>b. b) (map fits vs)"
| "fits (JObj ms) = list_all snd (map (map_prod id fits) ms)"

primrec fromIface :: "goval \<Rightarrow> json" where
  "fromIface GNil = JNull"
| "fromIface (GBool b) = JBool b"
| "fromIface (GFloat n) = JNum n"
| "fromIface (GString s) = JStr s"
| "fromIface (GSlice vs) = JArr (map fromIface vs)"
| "fromIface (GMap ms) = JObj (sort_key fst (map (map_prod id fromIface) ms))"

text \<open>
  \<open>TransactionLogEntry\<close> (the client's source, lines 33-44). \<open>ID\<close> is a Go \<open>int\<close>, taken as
  64 bits wide: the decoder refuses a literal outside that range. \<open>Tuple\<close> is a slice, and
  \<open>None\<close> is the nil slice.
\<close>

record TransactionLogEntry =
  ID :: int
  ChangeSetID :: string
  TimeStamp :: string
  ReplicationTime :: string
  User :: string
  Cube :: string
  Tuple :: "string list option"
  OldValue :: goval
  NewValue :: goval
  StatusMessage :: goval

definition zeroEntry :: TransactionLogEntry where
  "zeroEntry = \<lparr>ID = 0, ChangeSetID = [], TimeStamp = [], ReplicationTime = [],
     User = [], Cube = [], Tuple = None, OldValue = GNil, NewValue = GNil,
     StatusMessage = GNil\<rparr>"

subsection \<open>Unmarshal\<close>

text \<open>
  An unmarshaller takes the JSON value and the Go variable's present content, and gives
  whether the value fitted (otherwise \<open>Decode\<close> returns an \<open>UnmarshalTypeError\<close>) and
  the variable's new content. JSON null leaves a string, an int or a struct unchanged and
  sets a slice or an interface to nil. A member of an object is matched to a field by
  its name under Unicode simple case folding: the fields' names are ASCII, and the
  characters that fold onto an ASCII letter are the letter in its other case, U+017F
  (long s, the bytes C5 BF) onto \<open>s\<close> and U+212A (the Kelvin sign, the bytes E2 84 AA)
  onto \<open>k\<close>; other members are skipped. After a member that does not fit, \<open>Unmarshal\<close>
  goes on with the next one and reports the error at the end. An array is decoded into
  a slice of fresh elements (what a member repeated within one object finds in the
  slice from its first occurrence is not modelled).
\<close>

definition unmarshal_string :: "json \<Rightarrow> string \<Rightarrow> bool \<times> string" where
  "unmarshal_string v x =
     (case v of JStr s \<Rightarrow> (True, s) | JNull \<Rightarrow> (True, x) | _ \<Rightarrow> (False, x))"

definition unmarshal_int :: "json \<Rightarrow> int \<Rightarrow> bool \<times> int" where
  "unmarshal_int v x =
     (case v of
        JNum (IntLit i) \<Rightarrow> if - (2 ^ 63) \<le> i \<and> i < 2 ^ 63 then (True, i) else (False, x)
      | JNull \<Rightarrow> (True, x)
      | _ \<Rightarrow> (False, x))"

definition unmarshal_strings :: "json \<Rightarrow> string list option \<Rightarrow> bool \<times> string list option" where
  "unmarshal_strings v x =
     (case v of
        JArr vs \<Rightarrow>
          (let rs = map (\<lambda>e. unmarshal_string e []) vs
           in (list_all fst rs, Some (map snd rs)))
      | JNull \<Rightarrow> (True, None)
      | _ \<Rightarrow> (False, x))"

definition unmarshal_iface :: "json \<Rightarrow> goval \<Rightarrow> bool \<times> goval" where
  "unmarshal_iface v x =
     (case v of
        JNum n \<Rightarrow> if fits_float64 n then (True, GFloat n) else (False, x)
      | _ \<Rightarrow> (fits v, toIface v))"

definition to_lower :: "char \<Rightarrow> char" where
  "to_lower c = (if CHR ''A'' \<le> c \<and> c \<le> CHR ''Z'' then char_of (of_char c + (32::nat)) else c)"

fun fold_name :: "string \<Rightarrow> string" where
  "fold_name (a # b # c # cs) =
     (if a = CHR 0xE2 \<and> b = CHR 0x84 \<and> c = CHR 0xAA then CHR ''k'' # fold_name cs
      else if a = CHR 0xC5 \<and> b = CHR 0xBF then CHR ''s'' # fold_name (c # cs)
      else to_lower a # fold_name (b # c # cs))"
| "fold_name [a, b] =
     (if a = CHR 0xC5 \<and> b = CHR 0xBF then ''s'' else [to_lower a, to_lower b])"
| "fold_name cs = map to_lower cs"

definition setField :: "bool \<times> TransactionLogEntry \<Rightarrow> string \<times> json \<Rightarrow> bool \<times> TransactionLogEntry" where
  "setField acc m =
     (let ok = fst acc; e = snd acc; k = fold_name (fst m); v = snd m in
      if k = ''id'' then
        (let r = unmarshal_int v (ID e) in (ok \<and> fst r, e\<lparr>ID := snd r\<rparr>))
      else if k = ''changesetid'' then
        (let r = unmarshal_string v (ChangeSetID e) in (ok \<and> fst r, e\<lparr>ChangeSetID := snd r\<rparr>))
      else if k = ''timestamp'' then
        (let r = unmarshal_string v (TimeStamp e) in (ok \<and> fst r, e\<lparr>TimeStamp := snd r\<rparr>))
      else if k = ''replicationtime'' then
        (let r = unmarshal_string v (ReplicationTime e) in (ok \<and> fst r, e\<lparr>ReplicationTime := snd r\<rparr>))
      else if k = ''user'' then
        (let r = unmarshal_string v (User e) in (ok \<and> fst r, e\<lparr>User := snd r\<rparr>))
      else if k = ''cube'' then
        (let r = unmarshal_string v (Cube e) in (ok \<and> fst r, e\<lparr>Cube := snd r\<rparr>))
      else if k = ''tuple'' then
        (let r = unmarshal_strings v (Tuple e) in (ok \<and> fst r, e\<lparr>Tuple := snd r\<rparr>))
      else if k = ''oldvalue'' then
        (let r = unmarshal_iface v (OldValue e) in (ok \<and> fst r, e\<lparr>OldValue := snd r\<rparr>))
      else if k = ''newvalue'' then
        (let r = unmarshal_iface v (NewValue e) in (ok \<and> fst r, e\<lparr>NewValue := snd r\<rparr>))
      else if k = ''statusmessage'' then
        (let r = unmarshal_iface v (StatusMessage e) in (ok \<and> fst r, e\<lparr>StatusMessage := snd r\<rparr>))
      else (ok, e))"

definition unmarshal_entry :: "json \<Rightarrow> TransactionLogEntry \<Rightarrow> bool \<times> TransactionLogEntry" where
  "unmarshal_entry v e =
     (case v of
        JObj ms \<Rightarrow> foldl setField (True, e) ms
      | JNull \<Rightarrow> (True, e)
      | _ \<Rightarrow> (False, e))"

text \<open>What \<open>json.Encoder.Encode\<close> writes for an entry: its fields in declaration order.\<close>

definition marshal_entry :: "TransactionLogEntry \<Rightarrow> json" where
  "marshal_entry e = JObj
     [(''ID'', JNum (IntLit (ID e))),
      (''ChangeSetID'', JStr (ChangeSetID e)),
      (''TimeStamp'', JStr (TimeStamp e)),
      (''ReplicationTime'', JStr (ReplicationTime e)),
      (''User'', JStr (User e)),
      (''Cube'', JStr (Cube e)),
      (''Tuple'', (case Tuple e of None \<Rightarrow> JNull | Some ts \<Rightarrow> JArr (map JStr ts))),
      (''OldValue'', fromIface (OldValue e)),
      (''NewValue'', fromIface (NewValue e)),
      (''StatusMessage'', fromIface (StatusMessage e))]"

section \<open>json.Decoder\<close>

text \<open>
  The decoder of encoding/json with its token interface: the unread input, the state
  of the token machine with its stack (the head is the top), and the error that
  \<open>readValue\<close> keeps once the scanner has failed.
\<close>

datatype tokenState =
    tokenTopValue | tokenArrayStart | tokenArrayValue | tokenArrayComma
  | tokenObjectStart | tokenObjectKey | tokenObjectColon | tokenObjectValue
  | tokenObjectComma

record Decoder =
  buf :: "lexeme list"
  tokenState :: tokenState
  tokenStack :: "tokenState list"
  err :: "decerr option"

definition NewDecoder :: "lexeme list \<Rightarrow> Decoder" where
  "NewDecoder stream = \<lparr>buf = stream, tokenState = tokenTopValue, tokenStack = [], err = None\<rparr>"

text \<open>A \<open>json.Token\<close> is a \<open>json.Delim\<close> or a Go value (bool, float64, string, nil).\<close>

datatype token = Delim char | Value goval

definition tokenPrepareForDecode :: "Decoder \<Rightarrow> decerr + Decoder" where
  "tokenPrepareForDecode d =
     (if tokenState d = tokenArrayComma then
        (case buf d of
           [] \<Rightarrow> Inl EOF
         | c # rest \<Rightarrow>
             if c \<noteq> LComma then Inl SyntaxError
             else Inr (d\<lparr>buf := rest, tokenState := tokenArrayValue\<rparr>))
      else if tokenState d = tokenObjectColon then
        (case buf d of
           [] \<Rightarrow> Inl EOF
         | c # rest \<Rightarrow>
             if c \<noteq> LColon then Inl SyntaxError
             else Inr (d\<lparr>buf := rest, tokenState := tokenObjectValue\<rparr>))
      else Inr d)"

definition tokenValueAllowed :: "Decoder \<Rightarrow> bool" where
  "tokenValueAllowed d =
     (tokenState d = tokenTopValue \<or> tokenState d = tokenArrayStart
      \<or> tokenState d = tokenArrayValue \<or> tokenState d = tokenObjectValue)"

definition tokenValueEnd :: "Decoder \<Rightarrow> Decoder" where
  "tokenValueEnd d =
     (if tokenState d = tokenArrayStart \<or> tokenState d = tokenArrayValue
      then d\<lparr>tokenState := tokenArrayComma\<rparr>
      else if tokenState d = tokenObjectValue then d\<lparr>tokenState := tokenObjectComma\<rparr>
      else d)"

text \<open>
  \<open>Decode\<close>: the error, the variable's content afterwards and the decoder afterwards.
  An error of \<open>Unmarshal\<close> is returned after the value has been consumed and is not kept
  in the decoder.
\<close>

definition Decode ::
  "(json \<Rightarrow> 'a \<Rightarrow> bool \<times> 'a) \<Rightarrow> Decoder \<Rightarrow> 'a \<Rightarrow> decerr option \<times> 'a \<times> Decoder" where
  "Decode unmarshal d x =
     (case err d of
        Some e \<Rightarrow> (Some e, x, d)
      | None \<Rightarrow>
          (case tokenPrepareForDecode d of
             Inl e \<Rightarrow> (Some e, x, d)
           | Inr d1 \<Rightarrow>
               if \<not> tokenValueAllowed d1 then (Some SyntaxError, x, d1)
               else
                 (case readValue (buf d1) of
                    Inl e \<Rightarrow> (Some e, x, d1\<lparr>err := Some e\<rparr>)
                  | Inr (v, rest) \<Rightarrow>
                      (let r = unmarshal v x
                       in ((if fst r then None else Some UnmarshalTypeError), snd r,
                           tokenValueEnd (d1\<lparr>buf := rest\<rparr>))))))"

definition More :: "Decoder \<Rightarrow> bool" where
  "More d = (case buf d of [] \<Rightarrow> False | c # _ \<Rightarrow> c \<noteq> RBrack \<and> c \<noteq> RBrace)"

definition popState :: "Decoder \<Rightarrow> lexeme list \<Rightarrow> char \<Rightarrow> (decerr + token) \<times> Decoder" where
  "popState d rest c =
     (case tokenStack d of
        [] \<Rightarrow> (Inl StackPanic, d)
      | t # ts \<Rightarrow>
          (Inr (Delim c), tokenValueEnd (d\<lparr>buf := rest, tokenState := t, tokenStack := ts\<rparr>)))"

definition pushState :: "Decoder \<Rightarrow> lexeme list \<Rightarrow> tokenState \<Rightarrow> Decoder" where
  "pushState d rest t = d\<lparr>buf := rest, tokenStack := tokenState d # tokenStack d, tokenState := t\<rparr>"

fun is_quote :: "lexeme \<Rightarrow> bool" where
  "is_quote (LStr s) = True"
| "is_quote _ = False"

function Token :: "Decoder \<Rightarrow> (decerr + token) \<times> Decoder" where
  "Token d =
     (case buf d of
        [] \<Rightarrow> (Inl EOF, d)
      | c # rest \<Rightarrow>
          if c = LBrack then
            (if \<not> tokenValueAllowed d then (Inl SyntaxError, d)
             else (Inr (Delim CHR ''[''), pushState d rest tokenArrayStart))
          else if c = RBrack then
            (if tokenState d \<noteq> tokenArrayStart \<and> tokenState d \<noteq> tokenArrayComma
             then (Inl SyntaxError, d)
             else popState d rest CHR '']'')
          else if c = LBrace then
            (if \<not> tokenValueAllowed d then (Inl SyntaxError, d)
             else (Inr (Delim CHR ''{''), pushState d rest tokenObjectStart))
          else if c = RBrace then
            (if tokenState d \<noteq> tokenObjectStart \<and> tokenState d \<noteq> tokenObjectComma
             then (Inl SyntaxError, d)
             else popState d rest CHR ''}'')
          else if c = LColon then
            (if tokenState d \<noteq> tokenObjectColon then (Inl SyntaxError, d)
             else Token (d\<lparr>buf := rest, tokenState := tokenObjectValue\<rparr>))
          else if c = LComma then
            (if tokenState d = tokenArrayComma
             then Token (d\<lparr>buf := rest, tokenState := tokenArrayValue\<rparr>)
             else if tokenState d = tokenObjectComma
             then Token (d\<lparr>buf := rest, tokenState := tokenObjectKey\<rparr>)
             else (Inl SyntaxError, d))
          else if is_quote c
                  \<and> (tokenState d = tokenObjectStart \<or> tokenState d = tokenObjectKey) then
            (case Decode unmarshal_string (d\<lparr>tokenState := tokenTopValue\<rparr>) [] of
               (Some e, x, d') \<Rightarrow> (Inl e, d'\<lparr>tokenState := tokenState d\<rparr>)
             | (None, x, d') \<Rightarrow> (Inr (Value (GString x)), d'\<lparr>tokenState := tokenObjectColon\<rparr>))
          else if \<not> tokenValueAllowed d then (Inl SyntaxError, d)
          else
            (case Decode unmarshal_iface d GNil of
               (Some e, x, d') \<Rightarrow> (Inl e, d')
             | (None, x, d') \<Rightarrow> (Inr (Value x), d')))"
  by pat_completeness auto
termination
  by (relation "measure (\<lambda>d. length (buf d))") auto

declare Token.simps [simp del]

text \<open>Every call that succeeds consumes input: the loops of the parser terminate.\<close>

lemma scan_shorter: "scan st x ls = Inr (v, rest) \<Longrightarrow> length rest < length ls"
proof (induction ls arbitrary: st x)
  case Nil
  then show ?case by simp
next
  case (Cons l ls)
  then show ?case
    by (fastforce split: option.splits sum.splits prod.splits)
qed

lemma tokenValueEnd_buf [simp]: "buf (tokenValueEnd d) = buf d"
  by (simp add: tokenValueEnd_def)

lemma tokenPrepareForDecode_le:
  "tokenPrepareForDecode d = Inr d1 \<Longrightarrow> length (buf d1) \<le> length (buf d)"
  by (auto simp: tokenPrepareForDecode_def split: if_splits list.splits)

lemma Decode_le: "Decode u d x = (e, y, d') \<Longrightarrow> length (buf d') \<le> length (buf d)"
  unfolding Decode_def readValue_def
  by (auto simp: Let_def split: option.splits sum.splits if_splits prod.splits
      dest!: tokenPrepareForDecode_le scan_shorter)

lemma Decode_shorter: "Decode u d x = (None, y, d') \<Longrightarrow> length (buf d') < length (buf d)"
  unfolding Decode_def readValue_def
  by (auto simp: Let_def split: option.splits sum.splits if_splits prod.splits
      dest!: tokenPrepareForDecode_le scan_shorter)

lemma Token_shorter: "Token d = (Inr t, d') \<Longrightarrow> length (buf d') < length (buf d)"
proof (induction d rule: Token.induct)
  case (1 d)
  show ?case
  proof (cases "buf d")
    case Nil
    with "1.prems" show ?thesis by (simp add: Token.simps [of d])
  next
    case (Cons c rest)
    with "1.prems" "1.IH" show ?thesis
      by (auto simp: Token.simps [of d] popState_def pushState_def
          split: if_splits list.splits option.splits prod.splits
          dest!: Decode_shorter)
  qed
qed

section \<open>The parser: ParseTransactionLogs\<close>

text \<open>
  Modelled from the spec: the declaration of \<open>TransactionLogContainer\<close> is missing from
  the sources. Its two fields are those that ParseTransactionLogs writes and the
  forwarder reads: the Record of a unit that is not final (a pointer, nil in the final
  unit) and the continuation token of the final unit.
\<close>

record TransactionLogContainer =
  TransactionLogEntry :: "TransactionLogEntry option"
  DeltaLink :: string

text \<open>The errors that ParseTransactionLogs returns: a decoder's error as it is, or its own.\<close>

datatype error =
    DecoderError decerr
  | ObjectStartNotFound
  | ArrayStartNotFound
  | EntryDecodeFailed
  | ArrayEndNotFound
  | ObjectEndNotFound

text \<open>
  The callback is a state transformer: \<open>callback s c\<close> is the state of the caller
  after the call with the unit \<open>c\<close>. The loop over the elements of the array
  (json\_reviver.go, lines 61-75).
\<close>

function read_elements ::
  "('s \<Rightarrow> TransactionLogContainer \<Rightarrow> 's) \<Rightarrow> Decoder \<Rightarrow> 's \<Rightarrow> error option \<times> Decoder \<times> 's" where
  "read_elements callback d s =
     (if More d then
        (case Decode unmarshal_entry d zeroEntry of
           (Some e, txnLog, d') \<Rightarrow> (Some EntryDecodeFailed, d', s)
         | (None, txnLog, d') \<Rightarrow>
             read_elements callback d'
               (callback s \<lparr>TransactionLogEntry = Some txnLog, DeltaLink = []\<rparr>))
      else (None, d, s))"
  by pat_completeness auto
termination
  by (relation "measure (\<lambda>(callback, d, s). length (buf d))")
    (auto dest: Decode_shorter [OF sym])

declare read_elements.simps [simp del]

lemma read_elements_le:
  "read_elements callback d s = (e, d', s') \<Longrightarrow> length (buf d') \<le> length (buf d)"
proof (induction callback d s rule: read_elements.induct)
  case (1 callback d s)
  show ?case
  proof (cases "More d")
    case False
    with "1.prems" show ?thesis by (simp add: read_elements.simps [of callback d s])
  next
    case True
    obtain e1 txnLog d1 where dec: "Decode unmarshal_entry d zeroEntry = (e1, txnLog, d1)"
      by (cases "Decode unmarshal_entry d zeroEntry") auto
    show ?thesis
    proof (cases e1)
      case None
      with True dec "1.prems"
      have rec: "read_elements callback d1
          (callback s \<lparr>TransactionLogEntry = Some txnLog, DeltaLink = []\<rparr>) = (e, d', s')"
        by (simp add: read_elements.simps [of callback d s])
      have "length (buf d') \<le> length (buf d1)"
        using "1.IH" True dec None rec by auto
      with Decode_le [OF dec] show ?thesis by simp
    next
      case (Some a)
      with True dec "1.prems" Decode_le [OF dec] show ?thesis
        by (auto simp add: read_elements.simps [of callback d s])
    qed
  qed
qed

text \<open>
  Lines 41-43: the value of the member named \<open>@odata.deltaLink\<close> is decoded into the
  variable \<open>deltaLink\<close>, and the error of \<open>Decode\<close> is dropped.
\<close>

definition decode_deltaLink :: "token \<Rightarrow> Decoder \<Rightarrow> string \<Rightarrow> string \<times> Decoder" where
  "decode_deltaLink tok d deltaLink =
     (if tok = Value (GString ''@odata.deltaLink'')
      then (case Decode unmarshal_string d deltaLink of (e, x, d') \<Rightarrow> (x, d'))
      else (deltaLink, d))"

lemma decode_deltaLink_le:
  "decode_deltaLink tok d x = (y, d') \<Longrightarrow> length (buf d') \<le> length (buf d)"
  by (auto simp: decode_deltaLink_def split: if_splits prod.splits dest: Decode_le)

text \<open>The loop over the members of the object (lines 35-85).\<close>

function parse_members ::
  "('s \<Rightarrow> TransactionLogContainer \<Rightarrow> 's) \<Rightarrow> Decoder \<Rightarrow> 's \<Rightarrow> string
     \<Rightarrow> error option \<times> Decoder \<times> 's \<times> string" where
  "parse_members callback d s deltaLink =
     (if More d then
        (case Token d of
           (Inl e, d1) \<Rightarrow> (Some (DecoderError e), d1, s, deltaLink)
         | (Inr tok, d1) \<Rightarrow>
             (case decode_deltaLink tok d1 deltaLink of
                (deltaLink', d2) \<Rightarrow>
                  if tok \<noteq> Value (GString ''value'')
                  then parse_members callback d2 s deltaLink'
                  else
                    (case Token d2 of
                       (Inl e, d3) \<Rightarrow> (Some (DecoderError e), d3, s, deltaLink')
                     | (Inr tok', d3) \<Rightarrow>
                         if tok' \<noteq> Delim CHR ''[''
                         then (Some ArrayStartNotFound, d3, s, deltaLink')
                         else
                           (case read_elements callback d3 s of
                              (Some e, d4, s') \<Rightarrow> (Some e, d4, s', deltaLink')
                            | (None, d4, s') \<Rightarrow>
                                (case Token d4 of
                                   (Inl e, d5) \<Rightarrow> (Some (DecoderError e), d5, s', deltaLink')
                                 | (Inr tok'', d5) \<Rightarrow>
                                     if tok'' \<noteq> Delim CHR '']''
                                     then (Some ArrayEndNotFound, d5, s', deltaLink')
                                     else parse_members callback d5 s' deltaLink')))))
      else (None, d, s, deltaLink))"
  by pat_completeness auto
termination
  by (relation "measure (\<lambda>(callback, d, s, deltaLink). length (buf d))")
    (auto dest!: Token_shorter [OF sym] decode_deltaLink_le [OF sym] read_elements_le [OF sym])

declare parse_members.simps [simp del]

text \<open>ParseTransactionLogs (json\_reviver.go, lines 23-99), on the reviver's decoder.\<close>

definition ParseTransactionLogs ::
  "('s \<Rightarrow> TransactionLogContainer \<Rightarrow> 's) \<Rightarrow> Decoder \<Rightarrow> 's \<Rightarrow> error option \<times> 's" where
  "ParseTransactionLogs callback d s =
     (case Token d of
        (Inl e, d1) \<Rightarrow> (Some (DecoderError e), s)
      | (Inr t, d1) \<Rightarrow>
          if t \<noteq> Delim CHR ''{'' then (Some ObjectStartNotFound, s)
          else
            (case parse_members callback d1 s [] of
               (Some e, d2, s', deltaLink) \<Rightarrow> (Some e, s')
             | (None, d2, s', deltaLink) \<Rightarrow>
                 (case Token d2 of
                    (Inl e, d3) \<Rightarrow> (Some (DecoderError e), s')
                  | (Inr t', d3) \<Rightarrow>
                      if t' \<noteq> Delim CHR ''}'' then (Some ObjectEndNotFound, s')
                      else (None, callback s' \<lparr>TransactionLogEntry = None, DeltaLink = deltaLink\<rparr>))))"

text \<open>A callback that records the units it is given, in the order of the calls.\<close>

definition collect :: "TransactionLogContainer list \<Rightarrow> TransactionLogContainer \<Rightarrow> TransactionLogContainer list" where
  "collect s c = s @ [c]"

subsection \<open>The earlier variant of the parser\<close>

text \<open>
  A second source file holds an earlier ParseTransactionLogs: its callback takes the
  entry and a flag that marks the final call, it does not read the continuation token,
  and it does not require the closing brace of the object. The forwarder is written
  against the later one; the earlier one is modelled beside it, with \<open>_000\<close> added to
  the names.
\<close>

function read_elements_000 ::
  "('s \<Rightarrow> TransactionLogEntry option \<Rightarrow> bool \<Rightarrow> 's) \<Rightarrow> Decoder \<Rightarrow> 's
     \<Rightarrow> error option \<times> Decoder \<times> 's" where
  "read_elements_000 callback d s =
     (if More d then
        (case Decode unmarshal_entry d zeroEntry of
           (Some e, txnLog, d') \<Rightarrow> (Some EntryDecodeFailed, d', s)
         | (None, txnLog, d') \<Rightarrow> read_elements_000 callback d' (callback s (Some txnLog) False))
      else (None, d, s))"
  by pat_completeness auto
termination
  by (relation "measure (\<lambda>(callback, d, s). length (buf d))")
    (auto dest: Decode_shorter [OF sym])

declare read_elements_000.simps [simp del]

definition as_container ::
  "('s \<Rightarrow> TransactionLogEntry option \<Rightarrow> bool \<Rightarrow> 's) \<Rightarrow> 's \<Rightarrow> TransactionLogContainer \<Rightarrow> 's" where
  "as_container callback s c = callback s (TransactionLogEntry c) False"

lemma read_elements_000_eq:
  "read_elements_000 cb d s = read_elements (as_container cb) d s"
proof (induction cb d s rule: read_elements_000.induct)
  case (1 cb d s)
  show ?case
  proof (cases "More d")
    case False
    then show ?thesis
      by (simp add: read_elements_000.simps [of cb d s] read_elements.simps [of _ d s])
  next
    case True
    obtain e1 txnLog d1 where dec: "Decode unmarshal_entry d zeroEntry = (e1, txnLog, d1)"
      by (cases "Decode unmarshal_entry d zeroEntry") auto
    show ?thesis
    proof (cases e1)
      case None
      from "1.IH" [OF True dec [symmetric] None refl]
      show ?thesis
        using True dec None
        by (simp add: read_elements_000.simps [of cb d s] read_elements.simps [of _ d s]
            as_container_def)
    next
      case (Some a)
      with True dec show ?thesis
        by (simp add: read_elements_000.simps [of cb d s] read_elements.simps [of _ d s])
    qed
  qed
qed

lemma read_elements_000_le:
  "read_elements_000 callback d s = (e, d', s') \<Longrightarrow> length (buf d') \<le> length (buf d)"
  by (simp add: read_elements_000_eq read_elements_le)

function parse_members_000 ::
  "('s \<Rightarrow> TransactionLogEntry option \<Rightarrow> bool \<Rightarrow> 's) \<Rightarrow> Decoder \<Rightarrow> 's
     \<Rightarrow> error option \<times> Decoder \<times> 's" where
  "parse_members_000 callback d s =
     (if More d then
        (case Token d of
           (Inl e, d1) \<Rightarrow> (Some (DecoderError e), d1, s)
         | (Inr tok, d1) \<Rightarrow>
             if tok \<noteq> Value (GString ''value'')
             then parse_members_000 callback d1 s
             else
               (case Token d1 of
                  (Inl e, d2) \<Rightarrow> (Some (DecoderError e), d2, s)
                | (Inr tok', d2) \<Rightarrow>
                    if tok' \<noteq> Delim CHR ''[''
                    then (Some ArrayStartNotFound, d2, s)
                    else
                      (case read_elements_000 callback d2 s of
                         (Some e, d3, s') \<Rightarrow> (Some e, d3, s')
                       | (None, d3, s') \<Rightarrow>
                           (case Token d3 of
                              (Inl e, d4) \<Rightarrow> (Some (DecoderError e), d4, s')
                            | (Inr tok'', d4) \<Rightarrow>
                                if tok'' \<noteq> Delim CHR '']''
                                then (Some ArrayEndNotFound, d4, s')
                                else parse_members_000 callback d4 s'))))
      else (None, d, s))"
  by pat_completeness auto
termination
  by (relation "measure (\<lambda>(callback, d, s). length (buf d))")
    (auto dest!: Token_shorter [OF sym] read_elements_000_le [OF sym])

declare parse_members_000.simps [simp del]

definition ParseTransactionLogs_000 ::
  "('s \<Rightarrow> TransactionLogEntry option \<Rightarrow> bool \<Rightarrow> 's) \<Rightarrow> Decoder \<Rightarrow> 's \<Rightarrow> error option \<times> 's" where
  "ParseTransactionLogs_000 callback d s =
     (case Token d of
        (Inl e, d1) \<Rightarrow> (Some (DecoderError e), s)
      | (Inr t, d1) \<Rightarrow>
          if t \<noteq> Delim CHR ''{'' then (Some ObjectStartNotFound, s)
          else
            (case parse_members_000 callback d1 s of
               (Some e, d2, s') \<Rightarrow> (Some e, s')
             | (None, d2, s') \<Rightarrow> (None, callback s' None True)))"

definition collect_000 ::
  "(TransactionLogEntry option \<times> bool) list \<Rightarrow> TransactionLogEntry option \<Rightarrow> bool
     \<Rightarrow> (TransactionLogEntry option \<times> bool) list" where
  "collect_000 s e final = s @ [(e, final)]"

section \<open>The forwarder: processTransactionLogEntries\<close>

text \<open>
  The goroutine that parses the stream shares with the rest of the program the pipe
  and the channel \<open>deltaLinkChannel\<close>. Its state: the counter \<open>count\<close>; what has been
  written to \<open>outputStream\<close>; whether \<open>outputStream\<close> has been closed; whether the
  goroutine of the POST request and the goroutine that drains the pipe have been
  started; the values sent on the channel, in order; and whether \<open>log.Fatal\<close> has ended
  the process. A write to the closed pipe writes nothing and returns an error, which
  only \<open>Encode\<close> passes on (lines 72-75). The newline that \<open>Encode\<close> appends is white space.
  The other end of the pipe (the POST request, or the goroutine that drains it) is taken
  to read whatever is written, so that no write blocks for ever.
\<close>

record forwarder =
  count :: int
  written :: "lexeme list"
  closed :: bool
  posting :: bool
  draining :: bool
  sent :: "string list"
  fatal :: bool

definition newForwarder :: forwarder where
  "newForwarder = \<lparr>count = 0, written = [], closed = False, posting = False,
     draining = False, sent = [], fatal = False\<rparr>"

definition Write :: "lexeme list \<Rightarrow> forwarder \<Rightarrow> forwarder" where
  "Write bs s = (if closed s then s else s\<lparr>written := written s @ bs\<rparr>)"

definition Encode :: "TransactionLogEntry \<Rightarrow> forwarder \<Rightarrow> forwarder" where
  "Encode e s =
     (if closed s then s\<lparr>fatal := True\<rparr>
      else s\<lparr>written := written s @ render (marshal_entry e)\<rparr>)"

text \<open>The callback given to ParseTransactionLogs (lines 55-99).\<close>

definition on_entry :: "TransactionLogEntry \<Rightarrow> forwarder \<Rightarrow> forwarder" where
  "on_entry txnLogEntry s =
     Encode txnLogEntry
       (if count s = 0
        then (Write [LBrace, LStr ''value'', LColon, LBrack] (s\<lparr>posting := True\<rparr>))
               \<lparr>count := count s + 1\<rparr>
        else Write [LComma] s)"

definition on_deltaLink :: "string \<Rightarrow> forwarder \<Rightarrow> forwarder" where
  "on_deltaLink deltaLink s =
     (let s' = (if count s > 0 then Write [RBrack] s else s\<lparr>draining := True\<rparr>)
      in s'\<lparr>closed := True, sent := sent s' @ [deltaLink]\<rparr>)"

definition forward :: "forwarder \<Rightarrow> TransactionLogContainer \<Rightarrow> forwarder" where
  "forward s txnLogContainer =
     (if fatal s then s
      else
        (let s1 = (case TransactionLogEntry txnLogContainer of
                     Some txnLogEntry \<Rightarrow> on_entry txnLogEntry s
                   | None \<Rightarrow> s)
         in if fatal s1 then s1
            else if DeltaLink txnLogContainer \<noteq> []
            then on_deltaLink (DeltaLink txnLogContainer) s1
            else s1))"

definition NewJSONReviver :: "lexeme list \<Rightarrow> Decoder" where
  "NewJSONReviver stream = NewDecoder stream"

definition run_forwarder :: "lexeme list \<Rightarrow> error option \<times> forwarder" where
  "run_forwarder stream = ParseTransactionLogs forward (NewJSONReviver stream) newForwarder"

text \<open>
  A call returns, or the process exits in \<open>log.Fatal\<close>, or the call blocks for ever.
  processTransactionLogEntries returns the first value sent on the channel; when the
  goroutine ends without a send, the receive at line 105 never completes.
\<close>

datatype 'a run = Returns 'a | Exits | Hangs

definition processTransactionLogEntries :: "lexeme list \<Rightarrow> (string \<times> string) run" where
  "processTransactionLogEntries stream =
     (case run_forwarder stream of
        (e, s) \<Rightarrow>
          (case sent s of
             deltaLink # _ \<Rightarrow> Returns ([], deltaLink)
           | [] \<Rightarrow> if fatal s \<or> e \<noteq> None then Exits else Hangs))"

section \<open>The poll loop: TrackCollection\<close>

text \<open>
  The network is a parameter: \<open>Do\<close> answers a request in a state of the world with a
  response, or with no response when the transport fails. What the loop does is a
  list of events: the requests it sends and the sleeps.
\<close>

record 'b response =
  StatusCode :: int
  Status :: string
  Body :: 'b

record request =
  Method :: string
  URL :: string
  Header :: "(string \<times> string) list"

record ('w, 'b) Client =
  Do :: "'w \<Rightarrow> request \<Rightarrow> 'b response option \<times> 'w"
  processorFunc :: "'b \<Rightarrow> (string \<times> string) run"

datatype event = Sent request | Slept nat

definition ExecuteGETRequestEx ::
  "('w, 'b) Client \<Rightarrow> 'w \<Rightarrow> string \<Rightarrow> (request \<Rightarrow> request) \<Rightarrow> request \<times> 'b response option \<times> 'w" where
  "ExecuteGETRequestEx client w urlStr preReq =
     (let req = preReq \<lparr>Method = ''GET'', URL = urlStr,
                  Header = [(''OData-Version'', ''4.0''), (''Accept'', ''application/json'')]\<rparr>
      in (req, Do client w req))"

definition track_changes :: "request \<Rightarrow> request" where
  "track_changes req = req\<lparr>Header := Header req @ [(''Prefer'', ''odata.track-changes'')]\<rparr>"

text \<open>
  ExecutePOSTRequest (lines 86-101; the body of the request is the pipe, which is the
  forwarder's \<open>written\<close>), and the goroutine that the forwarder starts with its first
  Record (the forwarder's \<open>posting\<close>; lines 62-64 of the main program): it drops what
  ExecutePOSTRequest returns.
\<close>

definition ExecutePOSTRequest ::
  "('w, 'b) Client \<Rightarrow> 'w \<Rightarrow> string \<Rightarrow> string \<Rightarrow> request \<times> 'b response option \<times> 'w" where
  "ExecutePOSTRequest client w urlStr contentType =
     (let req = \<lparr>Method = ''POST'', URL = urlStr,
                  Header = [(''Content-Type'', contentType), (''OData-Version'', ''4.0''),
                            (''Accept'', ''application/json'')]\<rparr>
      in (req, Do client w req))"

definition post_goroutine :: "('w, 'b) Client \<Rightarrow> 'w \<Rightarrow> event list \<times> unit run" where
  "post_goroutine client w =
     (case ExecutePOSTRequest client w ''http://localhost:12345'' ''application/json'' of
        (req, None, w') \<Rightarrow> ([Sent req], Exits)
      | (req, Some resp, w') \<Rightarrow> ([Sent req], Returns ()))"

text \<open>
  One pass through the body of the loop (lines 127-148): the events, and how the loop
  goes on.
\<close>

datatype 'w progress = Again string 'w | LoopExit | ProcessExit | Blocked

definition iteration ::
  "('w, 'b) Client \<Rightarrow> string \<Rightarrow> nat \<Rightarrow> string \<Rightarrow> 'w \<Rightarrow> event list \<times> 'w progress" where
  "iteration client serviceRootURL interval urlStr w =
     (case ExecuteGETRequestEx client w (serviceRootURL @ urlStr) track_changes of
        (req, None, w') \<Rightarrow> ([Sent req], ProcessExit)
      | (req, Some resp, w') \<Rightarrow>
          (case processorFunc client (Body resp) of
             Exits \<Rightarrow> ([Sent req], ProcessExit)
           | Hangs \<Rightarrow> ([Sent req], Blocked)
           | Returns (nextLink, deltaLink) \<Rightarrow>
               if nextLink \<noteq> [] then ([Sent req], Again nextLink w')
               else if deltaLink \<noteq> [] then ([Sent req, Slept interval], Again deltaLink w')
               else ([Sent req], LoopExit)))"

text \<open>
  The loop may run for ever: \<open>TrackCollection n\<close> runs at most \<open>n\<close> passes, and ends in
  \<open>Again url w\<close> when the loop is about to request \<open>url\<close> in the pass after those.
\<close>

fun TrackCollection ::
  "nat \<Rightarrow> ('w, 'b) Client \<Rightarrow> string \<Rightarrow> string \<Rightarrow> nat \<Rightarrow> 'w \<Rightarrow> event list \<times> 'w progress" where
  "TrackCollection 0 client serviceRootURL urlStr interval w =
     (if urlStr \<noteq> [] then ([], Again urlStr w) else ([], LoopExit))"
| "TrackCollection (Suc n) client serviceRootURL urlStr interval w =
     (if urlStr \<noteq> [] then
        (case iteration client serviceRootURL interval urlStr w of
           (evs, Again urlStr' w') \<Rightarrow>
             (case TrackCollection n client serviceRootURL urlStr' interval w' of
                (evs', p) \<Rightarrow> (evs @ evs', p))
         | (evs, p) \<Rightarrow> (evs, p))
      else ([], LoopExit))"

text \<open>
  ValidateStatusCode (lines 152-158): \<open>Some\<close> of the text given to \<open>log.Fatal\<close>, or
  \<open>None\<close> when it returns. The main program calls it with the status code 200 on the
  answer to its request for the server's version (line 165 there).
\<close>

definition ValidateStatusCode :: "string response \<Rightarrow> int \<Rightarrow> string \<Rightarrow> string option" where
  "ValidateStatusCode resp statusCode logFmt =
     (if StatusCode resp \<noteq> statusCode
      then Some (logFmt @ [CHR 0x0D, CHR 0x0A] @ ''Server responded with: '' @ Status resp
                 @ [CHR 0x0D, CHR 0x0A] @ Body resp)
      else None)"

section \<open>Bodies and units, for stating the properties\<close>

text \<open>
  A sequence of texts, each after a comma; the text of a member of an object; and what
  the scanner does once a value is complete.
\<close>

definition seq_text :: "lexeme list list \<Rightarrow> lexeme list" where
  "seq_text xs = concat (map ((#) LComma) xs)"

definition member_of :: "string \<times> json \<Rightarrow> lexeme list" where
  "member_of m = LStr (fst m) # LColon # render (snd m)"

definition cont :: "frame list \<Rightarrow> json \<Rightarrow> lexeme list \<Rightarrow> decerr + json \<times> lexeme list" where
  "cont st v rest =
     (case after_value st v of Inl w \<Rightarrow> Inr (w, rest) | Inr (st', x') \<Rightarrow> scan st' x' rest)"

text \<open>A text is well-formed JSON when the scanner reads one value and nothing is left.\<close>

definition well_formed :: "lexeme list \<Rightarrow> bool" where
  "well_formed ls = (case readValue ls of Inr (v, []) \<Rightarrow> True | _ \<Rightarrow> False)"

text \<open>A decoder that has kept no error.\<close>

abbreviation at :: "lexeme list \<Rightarrow> tokenState \<Rightarrow> tokenState list \<Rightarrow> Decoder" where
  "at B ts stk \<equiv> \<lparr>buf = B, tokenState = ts, tokenStack = stk, err = None\<rparr>"

text \<open>
  An array element decodes when \<open>Decode\<close> into a fresh \<open>TransactionLogEntry\<close> returns no
  error; \<open>decoded\<close> is the entry it leaves. The unit of a Record and the final unit, as
  ParseTransactionLogs builds them (lines 70-72 and 96).
\<close>

definition decodes :: "json \<Rightarrow> bool" where
  "decodes e = fst (unmarshal_entry e zeroEntry)"

definition decoded :: "json \<Rightarrow> TransactionLogEntry" where
  "decoded e = snd (unmarshal_entry e zeroEntry)"

definition record_unit :: "TransactionLogEntry \<Rightarrow> TransactionLogContainer" where
  "record_unit r = \<lparr>TransactionLogEntry = Some r, DeltaLink = []\<rparr>"

definition record_units :: "json list \<Rightarrow> TransactionLogContainer list" where
  "record_units es = map (\<lambda>e. record_unit (decoded e)) es"

definition final_unit :: "string \<Rightarrow> TransactionLogContainer" where
  "final_unit t = \<lparr>TransactionLogEntry = None, DeltaLink = t\<rparr>"

text \<open>
  The members that the parser reads as intended: the member \<open>value\<close> with an array
  whose elements decode, the member \<open>@odata.deltaLink\<close> with any value, and any other
  member whose value is a scalar other than the string \<open>value\<close>, a number being within
  the range of float64 (\<open>Token\<close> decodes a scalar into an \<open>interface{}\<close>). The elements
  under the collection field, and the token that the variable \<open>deltaLink\<close> holds after
  a member. The Records among the units that a callback has been given.
\<close>

definition records_of :: "TransactionLogContainer list \<Rightarrow> TransactionLogEntry list" where
  "records_of us = concat (map (\<lambda>c. case TransactionLogEntry c of Some r \<Rightarrow> [r] | None \<Rightarrow> []) us)"

fun is_scalar :: "json \<Rightarrow> bool" where
  "is_scalar (JArr vs) = False"
| "is_scalar (JObj ms) = False"
| "is_scalar _ = True"

definition tolerated :: "string \<times> json \<Rightarrow> bool" where
  "tolerated m =
     (if fst m = ''value'' then (case snd m of JArr es \<Rightarrow> list_all decodes es | _ \<Rightarrow> False)
      else if fst m = ''@odata.deltaLink'' then True
      else is_scalar (snd m) \<and> snd m \<noteq> JStr ''value'' \<and> fits (snd m))"

definition elements_of :: "string \<times> json \<Rightarrow> json list" where
  "elements_of m = (if fst m = ''value'' then (case snd m of JArr es \<Rightarrow> es | _ \<Rightarrow> []) else [])"

definition token_step :: "string \<Rightarrow> string \<times> json \<Rightarrow> string" where
  "token_step deltaLink m =
     (if fst m = ''@odata.deltaLink'' then snd (unmarshal_string (snd m) deltaLink) else deltaLink)"


text \<open>
  For the earlier variant: the members it reads as intended (the continuation field is
  an unrelated member to it), and the calls of its callback for a list of elements.
\<close>

definition tolerated_000 :: "string \<times> json \<Rightarrow> bool" where
  "tolerated_000 m =
     (if fst m = ''value'' then (case snd m of JArr es \<Rightarrow> list_all decodes es | _ \<Rightarrow> False)
      else is_scalar (snd m) \<and> snd m \<noteq> JStr ''value'' \<and> fits (snd m))"

definition entry_calls :: "json list \<Rightarrow> (TransactionLogEntry option \<times> bool) list" where
  "entry_calls es = map (\<lambda>e. (Some (decoded e), False)) es"

text \<open>
  The texts that the forwarder writes for the elements of a body. A Go value as the
  decoder builds it has its numbers within the range of float64 and its maps sorted by
  key without duplicates, and an entry as the decoder builds it has such values and an
  \<open>ID\<close> within 64 bits.
\<close>

definition entry_texts :: "json list \<Rightarrow> lexeme list list" where
  "entry_texts es = map (\<lambda>e. render (marshal_entry (decoded e))) es"

primrec canonical :: "goval \<Rightarrow> bool" where
  "canonical GNil = True"
| "canonical (GBool b) = True"
| "canonical (GFloat n) = fits_float64 n"
| "canonical (GString s) = True"
| "canonical (GSlice vs) = list_all (\<lambda>b. b) (map canonical vs)"
| "canonical (GMap ms) =
     (sorted (map fst ms) \<and> distinct (map fst ms) \<and> list_all snd (map (map_prod id canonical) ms))"

definition canonical_entry :: "TransactionLogEntry \<Rightarrow> bool" where
  "canonical_entry r =
     (- (2 ^ 63) \<le> ID r \<and> ID r < 2 ^ 63
      \<and> canonical (OldValue r) \<and> canonical (NewValue r) \<and> canonical (StatusMessage r))"

section \<open>Example inputs\<close>

text \<open>The body \<open>{"value":[]}\<close>: no Record and no continuation token.\<close>

definition empty_collection :: "lexeme list" where
  "empty_collection = [LBrace, LStr ''value'', LColon, LBrack, RBrack, RBrace]"

text \<open>The body \<open>{"value":[{"ID":1}],"@odata.deltaLink":"T2"}\<close>.\<close>

definition one_record :: "lexeme list" where
  "one_record =
     [LBrace, LStr ''value'', LColon, LBrack,
        LBrace, LStr ''ID'', LColon, LNum (IntLit 1), RBrace,
      RBrack, LComma, LStr ''@odata.deltaLink'', LColon, LStr ''T2'', RBrace]"

text \<open>
  A client whose transport reports every response with the given status, and a client
  whose server answers every request with the same status and body, with
  processTransactionLogEntries as its processor (as \<open>main\<close> sets it up).
\<close>

definition with_status :: "int \<Rightarrow> string \<Rightarrow> ('w, 'b) Client \<Rightarrow> ('w, 'b) Client" where
  "with_status code text client =
     client\<lparr>Do := (\<lambda>w req. case Do client w req of
                (resp, w') \<Rightarrow> (map_option (\<lambda>r. r\<lparr>StatusCode := code, Status := text\<rparr>) resp, w'))\<rparr>"

definition fixed_server :: "int \<Rightarrow> string \<Rightarrow> lexeme list \<Rightarrow> (unit, lexeme list) Client" where
  "fixed_server code text body =
     \<lparr>Do = (\<lambda>w req. (Some \<lparr>StatusCode = code, Status = text, Body = body\<rparr>, w)),
      processorFunc = processTransactionLogEntries\<rparr>"

text \<open>
  The same body with an unrelated member first whose value is an object:
  \<open>{"meta":{"a":1},"value":[{"ID":1}],"@odata.deltaLink":"T2"}\<close>.
\<close>

definition with_nested_member :: "lexeme list" where
  "with_nested_member =
     [LBrace, LStr ''meta'', LColon, LBrace, LStr ''a'', LColon, LNum (IntLit 1), RBrace, LComma,
      LStr ''value'', LColon, LBrack,
        LBrace, LStr ''ID'', LColon, LNum (IntLit 1), RBrace,
      RBrack, LComma, LStr ''@odata.deltaLink'', LColon, LStr ''T2'', RBrace]"



section \<open>The parser on rendered bodies\<close>

subsection \<open>The scanner reads back what was rendered\<close>

lemma member_text_render: "member_text (map_prod id render m) = member_of m"
  by (simp add: member_of_def member_text_def)

lemma render_JObj: "render (JObj ms) = LBrace # commas (map member_of ms) @ [RBrace]"
  by (simp add: member_text_render comp_def cong: map_cong)

lemma seq_text_simps [simp]:
  "seq_text [] = []" "seq_text (x # xs) = LComma # x @ seq_text xs"
  by (simp_all add: seq_text_def)

lemma commas_Cons: "commas (x # xs) = x @ seq_text xs"
  by (induction xs arbitrary: x) simp_all

lemma scan_scalar:
  "scalar_of l = Some v \<Longrightarrow> x = XValue \<or> x = XValueOrEnd \<Longrightarrow> scan st x (l # rest) = cont st v rest"
  by (cases l) (auto simp: cont_def split: sum.splits)

lemma scan_elems:
  assumes "\<And>v st x rest. v \<in> set vs \<Longrightarrow> x = XValue \<or> x = XValueOrEnd
             \<Longrightarrow> scan st x (render v @ rest) = cont st v rest"
  shows "scan (InArr acc # st) XCommaOrEnd (seq_text (map render vs) @ RBrack # rest)
           = cont st (JArr (acc @ vs)) rest"
  using assms
proof (induction vs arbitrary: acc)
  case Nil
  show ?case by (simp add: cont_def split: sum.splits)
next
  case (Cons v vs)
  have "scan (InArr acc # st) XCommaOrEnd (seq_text (map render (v # vs)) @ RBrack # rest)
      = scan (InArr acc # st) XValue (render v @ seq_text (map render vs) @ RBrack # rest)"
    by simp
  also have "\<dots> = scan (InArr (acc @ [v]) # st) XCommaOrEnd (seq_text (map render vs) @ RBrack # rest)"
    using Cons.prems [of v XValue] by (simp add: cont_def)
  also have "\<dots> = cont st (JArr ((acc @ [v]) @ vs)) rest"
    using Cons.prems by (intro Cons.IH) simp
  finally show ?case by simp
qed

lemma scan_members:
  assumes "\<And>v st x rest. v \<in> snd ` set ms \<Longrightarrow> x = XValue \<or> x = XValueOrEnd
             \<Longrightarrow> scan st x (render v @ rest) = cont st v rest"
  shows "scan (InObj acc k0 # st) XCommaOrEnd
           (seq_text (map member_of ms) @ RBrace # rest)
           = cont st (JObj (acc @ ms)) rest"
  using assms
proof (induction ms arbitrary: acc k0)
  case Nil
  show ?case by (simp add: cont_def split: sum.splits)
next
  case (Cons m ms)
  obtain k v where m: "m = (k, v)" by (cases m)
  let ?R = "seq_text (map member_of ms) @ RBrace # rest"
  have "scan (InObj acc k0 # st) XCommaOrEnd
          (seq_text (map member_of (m # ms)) @ RBrace # rest)
      = scan (InObj acc k # st) XValue (render v @ ?R)"
    by (simp add: m member_of_def)
  also have "\<dots> = scan (InObj (acc @ [(k, v)]) k # st) XCommaOrEnd ?R"
    using Cons.prems [of v XValue] by (simp add: cont_def m)
  also have "\<dots> = cont st (JObj ((acc @ [(k, v)]) @ ms)) rest"
    by (rule Cons.IH, rule Cons.prems) auto
  finally show ?case by (simp add: m)
qed

lemma scan_render:
  "x = XValue \<or> x = XValueOrEnd \<Longrightarrow> scan st x (render v @ rest) = cont st v rest"
proof (induction v arbitrary: st x rest)
  case (JArr vs)
  show ?case
  proof (cases vs)
    case Nil
    with JArr.prems show ?thesis by (auto simp: cont_def split: sum.splits)
  next
    case (Cons v vs')
    have "scan st x (render (JArr vs) @ rest)
        = scan (InArr [] # st) XValueOrEnd (render v @ seq_text (map render vs') @ RBrack # rest)"
      using JArr.prems by (auto simp: Cons commas_Cons)
    also have "\<dots> = scan (InArr [v] # st) XCommaOrEnd (seq_text (map render vs') @ RBrack # rest)"
      using JArr.IH [of v XValueOrEnd] by (simp add: Cons cont_def)
    also have "\<dots> = cont st (JArr ([v] @ vs')) rest"
      using JArr.IH by (intro scan_elems) (simp add: Cons)
    finally show ?thesis by (simp add: Cons)
  qed
next
  case (JObj ms)
  show ?case
  proof (cases ms)
    case Nil
    with JObj.prems show ?thesis by (auto simp: cont_def split: sum.splits)
  next
    case (Cons m ms')
    obtain k v where m: "m = (k, v)" by (cases m)
    let ?R = "seq_text (map member_of ms') @ RBrace # rest"
    have ih: "\<And>v st x rest. v \<in> snd ` set ms \<Longrightarrow> x = XValue \<or> x = XValueOrEnd
             \<Longrightarrow> scan st x (render v @ rest) = cont st v rest"
      using JObj.IH by force
    have "scan st x (render (JObj ms) @ rest) = scan (InObj [] k # st) XValue (render v @ ?R)"
      using JObj.prems by (auto simp: Cons m commas_Cons member_of_def render_JObj simp del: render.simps)
    also have "\<dots> = scan (InObj [(k, v)] k # st) XCommaOrEnd ?R"
      using ih [of v XValue] by (simp add: Cons m cont_def)
    also have "\<dots> = cont st (JObj ([(k, v)] @ ms')) rest"
      by (rule scan_members, rule ih) (auto simp: Cons)
    finally show ?thesis by (simp add: Cons m)
  qed
qed (auto simp: cont_def split: sum.splits)

lemma readValue_render: "readValue (render v @ rest) = Inr (v, rest)"
  by (simp add: readValue_def scan_render cont_def)

subsection \<open>Decode and Token at the places the parser calls them\<close>

lemma record_units_simps [simp]:
  "record_units [] = []"
  "record_units (e # es) = record_unit (decoded e) # record_units es"
  "record_units (es @ es') = record_units es @ record_units es'"
  by (simp_all add: record_units_def)

lemma render_first: "\<exists>l ls. render v = l # ls \<and> l \<noteq> RBrack \<and> l \<noteq> RBrace"
  by (cases v) auto

lemma More_render [simp]: "More (at (render v @ R) ts stk)"
  using render_first [of v] by (auto simp: More_def)

lemma Decode_render:
  "ts = tokenTopValue \<or> ts = tokenArrayStart \<or> ts = tokenArrayValue \<or> ts = tokenObjectValue \<Longrightarrow>
   Decode u (at (render v @ R) ts stk) x
     = ((if fst (u v x) then None else Some UnmarshalTypeError), snd (u v x),
        tokenValueEnd (at R ts stk))"
  by (auto simp: Decode_def tokenPrepareForDecode_def tokenValueAllowed_def readValue_render Let_def)

lemma Decode_comma:
  "Decode u (at (LComma # render v @ R) tokenArrayComma stk) x
     = ((if fst (u v x) then None else Some UnmarshalTypeError), snd (u v x),
        at R tokenArrayComma stk)"
  by (auto simp: Decode_def tokenPrepareForDecode_def tokenValueAllowed_def readValue_render
      Let_def tokenValueEnd_def)

lemma Decode_colon:
  "Decode u (at (LColon # render v @ R) tokenObjectColon stk) x
     = ((if fst (u v x) then None else Some UnmarshalTypeError), snd (u v x),
        at R tokenObjectComma stk)"
  by (auto simp: Decode_def tokenPrepareForDecode_def tokenValueAllowed_def readValue_render
      Let_def tokenValueEnd_def)

lemma Decode_not_allowed:
  "Decode u (at B tokenObjectComma stk) x = (Some SyntaxError, x, at B tokenObjectComma stk)"
  by (auto simp: Decode_def tokenPrepareForDecode_def tokenValueAllowed_def)

lemma Token_key:
  "ts = tokenObjectStart \<or> ts = tokenObjectKey \<Longrightarrow>
   Token (at (LStr k # B) ts stk) = (Inr (Value (GString k)), at B tokenObjectColon stk)"
  using Decode_render [of tokenTopValue unmarshal_string "JStr k" B stk "[]"]
  by (auto simp: Token.simps [of "at (LStr k # B) ts stk"] unmarshal_string_def tokenValueEnd_def)

lemma Token_comma:
  "Token (at (LComma # B) tokenObjectComma stk) = Token (at B tokenObjectKey stk)"
  by (simp add: Token.simps [of "at (LComma # B) tokenObjectComma stk"])

lemma Token_colon:
  "Token (at (LColon # B) tokenObjectColon stk) = Token (at B tokenObjectValue stk)"
  by (simp add: Token.simps [of "at (LColon # B) tokenObjectColon stk"])

lemma unmarshal_iface_fits: "fits v \<Longrightarrow> unmarshal_iface v x = (True, toIface v)"
  by (cases v) (simp_all add: unmarshal_iface_def)

lemma unmarshal_iface_fails: "\<not> fits v \<Longrightarrow> fst (unmarshal_iface v x) = False"
  by (cases v) (simp_all add: unmarshal_iface_def)

lemma Token_value:
  assumes "scalar_of l = Some v" and "fits v"
  shows "Token (at (l # B) tokenObjectValue stk)
     = (Inr (Value (toIface v)), at B tokenObjectComma stk)"
proof -
  have r: "render v = [l]"
    using assms(1) by (cases l) auto
  have d: "Decode unmarshal_iface (at (l # B) tokenObjectValue stk) GNil
      = (None, toIface v, at B tokenObjectComma stk)"
    using Decode_render [of tokenObjectValue unmarshal_iface v B stk GNil]
    by (simp add: r unmarshal_iface_fits [OF assms(2)] tokenValueEnd_def)
  show ?thesis
    apply (subst Token.simps)
    using assms(1) d
    by (cases l; simp add: tokenValueAllowed_def)
qed

lemma Token_value_fails:
  assumes "scalar_of l = Some v" and "\<not> fits v"
  shows "Token (at (l # B) tokenObjectValue stk)
     = (Inl UnmarshalTypeError, at B tokenObjectComma stk)"
proof -
  have r: "render v = [l]"
    using assms(1) by (cases l) auto
  have d: "fst (Decode unmarshal_iface (at (l # B) tokenObjectValue stk) GNil)
      = Some UnmarshalTypeError"
    "snd (snd (Decode unmarshal_iface (at (l # B) tokenObjectValue stk) GNil))
      = at B tokenObjectComma stk"
    using Decode_render [of tokenObjectValue unmarshal_iface v B stk GNil]
    by (simp_all add: r unmarshal_iface_fails [OF assms(2)] tokenValueEnd_def)
  obtain e x d' where dd: "Decode unmarshal_iface (at (l # B) tokenObjectValue stk) GNil = (e, x, d')"
    by (cases "Decode unmarshal_iface (at (l # B) tokenObjectValue stk) GNil") auto
  show ?thesis
    apply (subst Token.simps)
    using assms(1) d dd
    by (cases l; simp add: tokenValueAllowed_def)
qed

lemma Token_scalar:
  "scalar_of l = Some v \<Longrightarrow> fits v \<Longrightarrow>
   Token (at (LColon # l # B) tokenObjectColon stk)
     = (Inr (Value (toIface v)), at B tokenObjectComma stk)"
  by (simp add: Token_colon Token_value)

lemma Token_scalar_fails:
  "scalar_of l = Some v \<Longrightarrow> \<not> fits v \<Longrightarrow>
   Token (at (LColon # l # B) tokenObjectColon stk)
     = (Inl UnmarshalTypeError, at B tokenObjectComma stk)"
  by (simp add: Token_colon Token_value_fails)

lemma Token_array_start:
  "Token (at (LColon # LBrack # B) tokenObjectColon stk)
     = (Inr (Delim CHR ''[''), at B tokenArrayStart (tokenObjectValue # stk))"
  by (simp add: Token.simps [of "at (LColon # LBrack # B) tokenObjectColon stk"]
      Token.simps [of "at (LBrack # B) tokenObjectValue stk"] tokenValueAllowed_def pushState_def)

lemma Token_array_end:
  "ts = tokenArrayStart \<or> ts = tokenArrayComma \<Longrightarrow>
   Token (at (RBrack # B) ts (tokenObjectValue # stk))
     = (Inr (Delim CHR '']''), at B tokenObjectComma stk)"
  by (auto simp: Token.simps [of "at (RBrack # B) ts (tokenObjectValue # stk)"]
      popState_def tokenValueEnd_def)

lemma Token_object_start:
  "Token (NewDecoder (LBrace # B)) = (Inr (Delim CHR ''{''), at B tokenObjectStart [tokenTopValue])"
  by (simp add: NewDecoder_def Token.simps [of "at (LBrace # B) tokenTopValue []"]
      tokenValueAllowed_def pushState_def)

lemma Token_object_end:
  "ts = tokenObjectStart \<or> ts = tokenObjectComma \<Longrightarrow>
   Token (at (RBrace # B) ts [tokenTopValue]) = (Inr (Delim CHR ''}''), at B tokenTopValue [])"
  by (auto simp: Token.simps [of "at (RBrace # B) ts [tokenTopValue]"]
      popState_def tokenValueEnd_def)

subsection \<open>The loop over the elements\<close>

lemma seq_text_append [simp]: "seq_text (xs @ ys) = seq_text xs @ seq_text ys"
  by (simp add: seq_text_def)

lemma read_elements_first:
  "read_elements cb (at (render e @ R) tokenArrayStart stk) s
     = (if decodes e
        then read_elements cb (at R tokenArrayComma stk) (cb s (record_unit (decoded e)))
        else (Some EntryDecodeFailed, at R tokenArrayComma stk, s))"
  by (subst read_elements.simps)
    (simp add: Decode_render tokenValueEnd_def decodes_def decoded_def record_unit_def)

lemma read_elements_next:
  "read_elements cb (at (LComma # render e @ R) tokenArrayComma stk) s
     = (if decodes e
        then read_elements cb (at R tokenArrayComma stk) (cb s (record_unit (decoded e)))
        else (Some EntryDecodeFailed, at R tokenArrayComma stk, s))"
  by (subst read_elements.simps)
    (simp add: Decode_comma More_def decodes_def decoded_def record_unit_def)

lemma read_elements_end:
  "read_elements cb (at (RBrack # R) ts stk) s = (None, at (RBrack # R) ts stk, s)"
  by (subst read_elements.simps) (simp add: More_def)

lemma read_elements_seq:
  "list_all decodes es \<Longrightarrow>
   read_elements cb (at (seq_text (map render es) @ R) tokenArrayComma stk) s
     = read_elements cb (at R tokenArrayComma stk) (foldl cb s (record_units es))"
  by (induction es arbitrary: s) (simp_all add: read_elements_next)

text \<open>The elements of an array, up to its end or up to the first element that does not decode.\<close>

lemma read_elements_array:
  assumes "list_all decodes es"
  shows "\<exists>ts. (ts = tokenArrayStart \<or> ts = tokenArrayComma) \<and>
     read_elements cb (at (commas (map render es) @ RBrack # R) tokenArrayStart stk) s
       = (None, at (RBrack # R) ts stk, foldl cb s (record_units es))"
proof (cases es)
  case Nil
  then show ?thesis by (simp add: read_elements_end)
next
  case (Cons e es')
  with assms show ?thesis
    by (simp add: commas_Cons read_elements_first read_elements_seq read_elements_end)
qed

lemma read_elements_failing:
  assumes "list_all decodes good" "\<not> decodes bad"
  shows "\<exists>d'. read_elements cb
            (at (commas (map render (good @ bad # others)) @ R) tokenArrayStart stk) s
       = (Some EntryDecodeFailed, d', foldl cb s (record_units good))"
proof (cases good)
  case Nil
  with assms show ?thesis
    by (simp add: commas_Cons read_elements_first)
next
  case (Cons e es')
  with assms show ?thesis
    by (simp add: commas_Cons read_elements_first read_elements_seq read_elements_next)
qed

subsection \<open>The loop over the members\<close>

lemma parse_members_end:
  "parse_members cb (at (RBrace # R) ts stk) s dl = (None, at (RBrace # R) ts stk, s, dl)"
  by (subst parse_members.simps) (simp add: More_def)

lemma parse_members_comma:
  "parse_members cb (at (LComma # LStr k # B) tokenObjectComma stk) s dl
     = parse_members cb (at (LStr k # B) tokenObjectKey stk) s dl"
  by (simp add: parse_members.simps [of cb "at (LComma # LStr k # B) tokenObjectComma stk"]
      parse_members.simps [of cb "at (LStr k # B) tokenObjectKey stk"]
      Token_comma More_def)

lemma parse_members_value:
  assumes "ts = tokenObjectStart \<or> ts = tokenObjectKey" "list_all decodes es"
  shows "parse_members cb (at (member_of (''value'', JArr es) @ R) ts stk) s dl
     = parse_members cb (at R tokenObjectComma stk)
         (foldl cb s (record_units es)) dl"
proof -
  from read_elements_array [OF assms(2), of cb R "tokenObjectValue # stk" s]
  obtain ts' where ts': "ts' = tokenArrayStart \<or> ts' = tokenArrayComma"
    and re: "read_elements cb (at (commas (map render es) @ RBrack # R) tokenArrayStart
                (tokenObjectValue # stk)) s
       = (None, at (RBrack # R) ts' (tokenObjectValue # stk),
          foldl cb s (record_units es))"
    by blast
  show ?thesis
    unfolding member_of_def fst_conv snd_conv append_Cons
    apply (subst parse_members.simps)
    using assms(1) ts'
    by (simp add: More_def Token_key decode_deltaLink_def Token_array_start re Token_array_end)
qed


lemma parse_members_deltaLink:
  assumes "ts = tokenObjectStart \<or> ts = tokenObjectKey"
  shows "parse_members cb (at (member_of (''@odata.deltaLink'', v) @ R) ts stk) s dl
     = parse_members cb (at R tokenObjectComma stk) s (snd (unmarshal_string v dl))"
  unfolding member_of_def fst_conv snd_conv append_Cons
  apply (subst parse_members.simps)
  using assms
  by (simp add: More_def Token_key decode_deltaLink_def Decode_colon)

lemma scalar_text: "is_scalar v \<Longrightarrow> \<exists>l. render v = [l] \<and> scalar_of l = Some v"
  by (cases v) auto

lemma toIface_value: "is_scalar v \<Longrightarrow> toIface v = GString s \<longleftrightarrow> v = JStr s"
  by (cases v) auto

lemma parse_members_other:
  assumes "ts = tokenObjectStart \<or> ts = tokenObjectKey"
    and "k \<noteq> ''value''" "k \<noteq> ''@odata.deltaLink''" "is_scalar v" "v \<noteq> JStr ''value''"
    and "fits v"
  shows "parse_members cb (at (member_of (k, v) @ R) ts stk) s dl
     = parse_members cb (at R tokenObjectComma stk) s dl"
proof -
  from scalar_text [OF assms(4)] obtain l where l: "render v = [l]" "scalar_of l = Some v"
    by blast
  have "parse_members cb (at (member_of (k, v) @ R) ts stk) s dl
      = parse_members cb (at (LColon # l # R) tokenObjectColon stk) s dl"
    unfolding member_of_def fst_conv snd_conv append_Cons l
    apply (subst parse_members.simps)
    using assms(1-3)
    by (simp add: More_def Token_key decode_deltaLink_def)
  also have "\<dots> = parse_members cb (at R tokenObjectComma stk) s dl"
    apply (subst parse_members.simps)
    using assms(4,5)
    by (simp add: More_def Token_scalar [OF l(2) assms(6)] decode_deltaLink_def
        Decode_not_allowed toIface_value)
  finally show ?thesis .
qed

lemma parse_members_member:
  assumes "ts = tokenObjectStart \<or> ts = tokenObjectKey" "tolerated m"
  shows "parse_members cb (at (member_of m @ R) ts stk) s dl
     = parse_members cb (at R tokenObjectComma stk)
         (foldl cb s (record_units (elements_of m))) (token_step dl m)"
proof -
  obtain k v where m: "m = (k, v)" by (cases m)
  consider (val) "k = ''value''" | (delta) "k = ''@odata.deltaLink''"
    | (other) "k \<noteq> ''value''" "k \<noteq> ''@odata.deltaLink''"
    by blast
  then show ?thesis
  proof cases
    case val
    with assms(2) obtain es where v: "v = JArr es" "list_all decodes es"
      by (auto simp: tolerated_def m split: json.splits)
    with val show ?thesis
      using parse_members_value [OF assms(1) v(2), of cb R stk s dl]
      by (simp add: m elements_of_def token_step_def)
  next
    case delta
    then show ?thesis
      using parse_members_deltaLink [OF assms(1), of cb v R stk s dl]
      by (simp add: m elements_of_def token_step_def)
  next
    case other
    with assms(2) have "is_scalar v" "v \<noteq> JStr ''value''" "fits v"
      by (auto simp: tolerated_def m)
    with other show ?thesis
      using parse_members_other [OF assms(1), of k v cb R stk s dl]
      by (simp add: m elements_of_def token_step_def)
  qed
qed

lemma member_of_key: "\<exists>B. member_of m = LStr (fst m) # B"
  by (simp add: member_of_def)

lemma parse_members_seq:
  "list_all tolerated ms \<Longrightarrow>
   parse_members cb (at (seq_text (map member_of ms) @ R) tokenObjectComma stk) s dl
     = parse_members cb (at R tokenObjectComma stk)
         (foldl cb s (record_units (concat (map elements_of ms))))
         (foldl token_step dl ms)"
proof (induction ms arbitrary: s dl)
  case Nil
  show ?case by simp
next
  case (Cons m ms)
  obtain B where B: "member_of m = LStr (fst m) # B"
    using member_of_key by blast
  have "parse_members cb (at (seq_text (map member_of (m # ms)) @ R) tokenObjectComma stk) s dl
      = parse_members cb (at (member_of m @ seq_text (map member_of ms) @ R) tokenObjectKey stk) s dl"
    by (simp add: B parse_members_comma)
  also have "\<dots> = parse_members cb (at (seq_text (map member_of ms) @ R) tokenObjectComma stk)
         (foldl cb s (record_units (elements_of m))) (token_step dl m)"
    using Cons.prems by (intro parse_members_member) simp_all
  also have "\<dots> = parse_members cb (at R tokenObjectComma stk)
         (foldl cb (foldl cb s (record_units (elements_of m)))
            (record_units (concat (map elements_of ms))))
         (foldl token_step (token_step dl m) ms)"
    using Cons.prems by (intro Cons.IH) simp
  finally show ?case by simp
qed

text \<open>A whole object of tolerated members, whatever follows it in the stream.\<close>

lemma parse_object:
  assumes "list_all tolerated ms"
  shows "ParseTransactionLogs cb (NewDecoder (render (JObj ms) @ R)) s
     = (None, cb (foldl cb s (record_units (concat (map elements_of ms))))
                (final_unit (foldl token_step [] ms)))"
proof (cases ms)
  case Nil
  then show ?thesis
    by (simp add: ParseTransactionLogs_def Token_object_start parse_members_end
        Token_object_end final_unit_def)
next
  case (Cons m ms')
  have "parse_members cb
          (at (commas (map member_of ms) @ RBrace # R) tokenObjectStart [tokenTopValue]) s []
      = parse_members cb (at (seq_text (map member_of ms') @ RBrace # R) tokenObjectComma [tokenTopValue])
         (foldl cb s (record_units (elements_of m))) (token_step [] m)"
    using assms parse_members_member [of tokenObjectStart m cb _ "[tokenTopValue]" s "[]"]
    by (simp add: Cons commas_Cons)
  also have "\<dots> = (None, at (RBrace # R) tokenObjectComma [tokenTopValue],
         foldl cb s (record_units (concat (map elements_of ms))),
         foldl token_step [] ms)"
    using assms by (simp add: Cons parse_members_seq parse_members_end)
  finally show ?thesis
    by (simp add: ParseTransactionLogs_def Token_object_start render_JObj Token_object_end
        final_unit_def del: render.simps)
qed

lemma parse_members_commas:
  assumes "list_all tolerated ms" "ms \<noteq> []"
  shows "parse_members cb (at (commas (map member_of ms) @ R) tokenObjectStart stk) s dl
     = parse_members cb (at R tokenObjectComma stk)
         (foldl cb s (record_units (concat (map elements_of ms)))) (foldl token_step dl ms)"
proof -
  from assms(2) obtain m ms' where ms: "ms = m # ms'" by (cases ms) auto
  with assms(1) show ?thesis
    using parse_members_member [of tokenObjectStart m cb "seq_text (map member_of ms') @ R" stk s dl]
    by (simp add: commas_Cons parse_members_seq)
qed


subsection \<open>The earlier variant on rendered bodies\<close>

lemma entry_calls_simps [simp]:
  "entry_calls [] = []"
  "entry_calls (e # es) = (Some (decoded e), False) # entry_calls es"
  "entry_calls (es @ es') = entry_calls es @ entry_calls es'"
  by (simp_all add: entry_calls_def)

lemma foldl_as_container:
  "foldl (as_container collect_000) s (record_units es) = s @ entry_calls es"
  by (induction es arbitrary: s)
    (simp_all add: as_container_def collect_000_def record_unit_def)

lemma parse_members_000_end:
  "parse_members_000 cb (at (RBrace # R) ts stk) s = (None, at (RBrace # R) ts stk, s)"
  by (subst parse_members_000.simps) (simp add: More_def)

lemma parse_members_000_comma:
  "parse_members_000 cb (at (LComma # LStr k # B) tokenObjectComma stk) s
     = parse_members_000 cb (at (LStr k # B) tokenObjectKey stk) s"
  by (simp add: parse_members_000.simps [of cb "at (LComma # LStr k # B) tokenObjectComma stk"]
      parse_members_000.simps [of cb "at (LStr k # B) tokenObjectKey stk"]
      Token_comma More_def)

lemma parse_members_000_value:
  assumes "ts = tokenObjectStart \<or> ts = tokenObjectKey" "list_all decodes es"
  shows "parse_members_000 cb (at (member_of (''value'', JArr es) @ R) ts stk) s
     = parse_members_000 cb (at R tokenObjectComma stk)
         (foldl (as_container cb) s (record_units es))"
proof -
  from read_elements_array [OF assms(2), of "as_container cb" R "tokenObjectValue # stk" s]
  obtain ts' where ts': "ts' = tokenArrayStart \<or> ts' = tokenArrayComma"
    and re: "read_elements (as_container cb)
                (at (commas (map render es) @ RBrack # R) tokenArrayStart
                (tokenObjectValue # stk)) s
       = (None, at (RBrack # R) ts' (tokenObjectValue # stk),
          foldl (as_container cb) s (record_units es))"
    by blast
  show ?thesis
    unfolding member_of_def fst_conv snd_conv append_Cons
    apply (subst parse_members_000.simps)
    using assms(1) ts'
    by (simp add: More_def Token_key Token_array_start read_elements_000_eq re Token_array_end)
qed

lemma parse_members_000_value_failing:
  assumes "ts = tokenObjectStart \<or> ts = tokenObjectKey" "list_all decodes good" "\<not> decodes bad"
  shows "\<exists>d'. parse_members_000 cb
           (at (member_of (''value'', JArr (good @ bad # others)) @ R) ts stk) s
     = (Some EntryDecodeFailed, d', foldl (as_container cb) s (record_units good))"
proof -
  from read_elements_failing [OF assms(2,3), of "as_container cb" others "RBrack # R"
      "tokenObjectValue # stk" s]
  obtain d' where re: "read_elements (as_container cb)
       (at (commas (map render (good @ bad # others)) @ RBrack # R) tokenArrayStart
          (tokenObjectValue # stk)) s
       = (Some EntryDecodeFailed, d', foldl (as_container cb) s (record_units good))"
    by blast
  show ?thesis
    unfolding member_of_def fst_conv snd_conv append_Cons
    apply (subst parse_members_000.simps)
    using assms(1) re
    by (simp add: More_def Token_key Token_array_start read_elements_000_eq)
qed

lemma parse_members_000_other:
  assumes "ts = tokenObjectStart \<or> ts = tokenObjectKey"
    and "k \<noteq> ''value''" "is_scalar v" "v \<noteq> JStr ''value''" "fits v"
  shows "parse_members_000 cb (at (member_of (k, v) @ R) ts stk) s
     = parse_members_000 cb (at R tokenObjectComma stk) s"
proof -
  from scalar_text [OF assms(3)] obtain l where l: "render v = [l]" "scalar_of l = Some v"
    by blast
  have "parse_members_000 cb (at (member_of (k, v) @ R) ts stk) s
      = parse_members_000 cb (at (LColon # l # R) tokenObjectColon stk) s"
    unfolding member_of_def fst_conv snd_conv append_Cons l
    apply (subst parse_members_000.simps)
    using assms(1,2)
    by (simp add: More_def Token_key)
  also have "\<dots> = parse_members_000 cb (at R tokenObjectComma stk) s"
    apply (subst parse_members_000.simps)
    using assms(3,4)
    by (simp add: More_def Token_scalar [OF l(2) assms(5)] toIface_value)
  finally show ?thesis .
qed

lemma parse_members_000_member:
  assumes "ts = tokenObjectStart \<or> ts = tokenObjectKey" "tolerated_000 m"
  shows "parse_members_000 cb (at (member_of m @ R) ts stk) s
     = parse_members_000 cb (at R tokenObjectComma stk)
         (foldl (as_container cb) s (record_units (elements_of m)))"
proof (cases "fst m = ''value''")
  case True
  with assms(2) obtain es where v: "m = (''value'', JArr es)" "list_all decodes es"
    by (cases m) (auto simp: tolerated_000_def split: json.splits)
  then show ?thesis
    using parse_members_000_value [OF assms(1) v(2), of cb R stk s]
    by (simp add: elements_of_def)
next
  case False
  with assms(2) have "is_scalar (snd m)" "snd m \<noteq> JStr ''value''" "fits (snd m)"
    by (auto simp: tolerated_000_def)
  with False show ?thesis
    using parse_members_000_other [OF assms(1), of "fst m" "snd m" cb R stk s]
    by (simp add: elements_of_def)
qed

lemma parse_members_000_seq:
  "list_all tolerated_000 ms \<Longrightarrow>
   parse_members_000 cb (at (seq_text (map member_of ms) @ R) tokenObjectComma stk) s
     = parse_members_000 cb (at R tokenObjectComma stk)
         (foldl (as_container cb) s (record_units (concat (map elements_of ms))))"
proof (induction ms arbitrary: s)
  case Nil
  show ?case by simp
next
  case (Cons m ms)
  obtain B where B: "member_of m = LStr (fst m) # B"
    using member_of_key by blast
  have "parse_members_000 cb (at (seq_text (map member_of (m # ms)) @ R) tokenObjectComma stk) s
      = parse_members_000 cb (at (member_of m @ seq_text (map member_of ms) @ R) tokenObjectKey stk) s"
    by (simp add: B parse_members_000_comma)
  also have "\<dots> = parse_members_000 cb (at (seq_text (map member_of ms) @ R) tokenObjectComma stk)
         (foldl (as_container cb) s (record_units (elements_of m)))"
    using Cons.prems by (intro parse_members_000_member) simp_all
  also have "\<dots> = parse_members_000 cb (at R tokenObjectComma stk)
         (foldl (as_container cb) (foldl (as_container cb) s (record_units (elements_of m)))
            (record_units (concat (map elements_of ms))))"
    using Cons.prems by (intro Cons.IH) simp
  finally show ?case by simp
qed

lemma parse_members_000_commas:
  assumes "list_all tolerated_000 ms" "ms \<noteq> []"
  shows "parse_members_000 cb (at (commas (map member_of ms) @ R) tokenObjectStart stk) s
     = parse_members_000 cb (at R tokenObjectComma stk)
         (foldl (as_container cb) s (record_units (concat (map elements_of ms))))"
proof -
  from assms(2) obtain m ms' where ms: "ms = m # ms'" by (cases ms) auto
  with assms(1) show ?thesis
    using parse_members_000_member [of tokenObjectStart m cb "seq_text (map member_of ms') @ R" stk s]
    by (simp add: commas_Cons parse_members_000_seq)
qed

text \<open>
  The variant on a body whose members it reads as intended: the same Records in the
  same order, then the final call.
\<close>

lemma variant_000_records_then_final:
  assumes "list_all tolerated_000 ms"
  shows "ParseTransactionLogs_000 collect_000 (NewDecoder (render (JObj ms) @ rest)) []
     = (None, entry_calls (concat (map elements_of ms)) @ [(None, True)])"
proof (cases "ms = []")
  case True
  then show ?thesis
    by (simp add: ParseTransactionLogs_000_def Token_object_start parse_members_000_end
        collect_000_def)
next
  case False
  from parse_members_000_commas [OF assms False, of collect_000 "RBrace # rest" "[tokenTopValue]" "[]"]
  show ?thesis
    by (simp add: ParseTransactionLogs_000_def Token_object_start render_JObj
        parse_members_000_end foldl_as_container collect_000_def del: render.simps)
qed

text \<open>The variant at an element that does not decode.\<close>

lemma variant_000_failing_element:
  assumes "list_all tolerated_000 before" "list_all decodes good" "\<not> decodes bad"
  shows "ParseTransactionLogs_000 collect_000
           (NewDecoder
              (render (JObj (before @ (''value'', JArr (good @ bad # others)) # after)) @ rest)) []
         = (Some EntryDecodeFailed,
            entry_calls (concat (map elements_of before)) @ entry_calls good)"
proof -
  let ?vm = "(''value'', JArr (good @ bad # others))"
  let ?R = "seq_text (map member_of after) @ RBrace # rest"
  obtain B where B: "member_of ?vm = LStr ''value'' # B"
    using member_of_key [of ?vm] by auto
  have "\<exists>d'. parse_members_000 collect_000
           (at (commas (map member_of (before @ ?vm # after)) @ RBrace # rest)
              tokenObjectStart [tokenTopValue]) []
     = (Some EntryDecodeFailed, d',
        entry_calls (concat (map elements_of before)) @ entry_calls good)"
  proof (cases before)
    case Nil
    from parse_members_000_value_failing [OF _ assms(2,3), of tokenObjectStart collect_000 others
        ?R "[tokenTopValue]" "[]"]
    show ?thesis by (simp add: Nil commas_Cons foldl_as_container)
  next
    case (Cons b bs)
    let ?s = "foldl (as_container collect_000) [] (record_units (concat (map elements_of before)))"
    have "parse_members_000 collect_000
            (at (commas (map member_of (before @ ?vm # after)) @ RBrace # rest)
              tokenObjectStart [tokenTopValue]) []
      = parse_members_000 collect_000
          (at (seq_text (map member_of bs) @ LComma # member_of ?vm @ ?R)
             tokenObjectComma [tokenTopValue])
          (foldl (as_container collect_000) [] (record_units (elements_of b)))"
      using assms(1) parse_members_000_member [of tokenObjectStart b collect_000 _ "[tokenTopValue]" "[]"]
      by (simp add: Cons commas_Cons)
    also have "\<dots> = parse_members_000 collect_000
          (at (LComma # member_of ?vm @ ?R) tokenObjectComma [tokenTopValue]) ?s"
      using assms(1) by (simp add: Cons parse_members_000_seq)
    also have "\<dots> = parse_members_000 collect_000
          (at (member_of ?vm @ ?R) tokenObjectKey [tokenTopValue]) ?s"
      by (simp add: B parse_members_000_comma)
    finally show ?thesis
      using parse_members_000_value_failing [OF _ assms(2,3), of tokenObjectKey collect_000 others
        ?R "[tokenTopValue]" ?s]
      by (simp add: foldl_as_container)
  qed
  then show ?thesis
    by (auto simp: ParseTransactionLogs_000_def Token_object_start render_JObj
        simp del: render.simps)
qed

text \<open>The variant does not skip a nested value either.\<close>

lemma variant_000_nested_member:
  "ParseTransactionLogs_000 collect_000 (NewDecoder with_nested_member) [] = (None, [(None, True)])"
  by code_simp

text \<open>The variant accepts what the forwarder writes: it does not look for the closing brace.\<close>

lemma variant_000_reads_forwarder_output:
  "ParseTransactionLogs_000 collect_000 (NewDecoder (written (snd (run_forwarder one_record)))) []
     = (None, [(Some (zeroEntry\<lparr>ID := 1\<rparr>), False), (None, True)])"
  by code_simp

lemma foldl_collect [simp]: "foldl collect s cs = s @ cs"
  by (induction cs arbitrary: s) (simp_all add: collect_def)

subsection \<open>The forwarder on rendered bodies\<close>

lemma entry_texts_simps [simp]:
  "entry_texts [] = []"
  "entry_texts (e # es) = render (marshal_entry (decoded e)) # entry_texts es"
  by (simp_all add: entry_texts_def)

lemma forward_record:
  "\<not> fatal s \<Longrightarrow> \<not> closed s \<Longrightarrow>
   forward s (record_unit r)
     = (if count s = 0
        then s\<lparr>posting := True, count := 1,
               written := written s @ [LBrace, LStr ''value'', LColon, LBrack]
                          @ render (marshal_entry r)\<rparr>
        else s\<lparr>written := written s @ LComma # render (marshal_entry r)\<rparr>)"
  by (simp add: forward_def record_unit_def on_entry_def Write_def Encode_def Let_def)

lemma forward_records_later:
  "\<not> fatal s \<Longrightarrow> \<not> closed s \<Longrightarrow> count s \<noteq> 0 \<Longrightarrow>
   foldl forward s (record_units es) = s\<lparr>written := written s @ seq_text (entry_texts es)\<rparr>"
  by (induction es arbitrary: s) (simp_all add: forward_record)

lemma forward_records:
  "foldl forward newForwarder (record_units es)
     = (if es = [] then newForwarder
        else newForwarder\<lparr>posting := True, count := 1,
               written := [LBrace, LStr ''value'', LColon, LBrack] @ commas (entry_texts es)\<rparr>)"
proof (cases es)
  case Nil
  then show ?thesis by simp
next
  case (Cons e es')
  then show ?thesis
    by (simp add: forward_record forward_records_later newForwarder_def commas_Cons)
qed

lemma forward_final:
  "\<not> fatal s \<Longrightarrow>
   forward s (final_unit t)
     = (if t = [] then s
        else if count s > 0
        then (Write [RBrack] s)\<lparr>closed := True, sent := sent (Write [RBrack] s) @ [t]\<rparr>
        else s\<lparr>draining := True, closed := True, sent := sent s @ [t]\<rparr>)"
  by (simp add: forward_def final_unit_def on_deltaLink_def Let_def)

text \<open>
  The forwarder on a body whose members the parser reads as intended: what it has
  written, whether it has closed the pipe, and what it has sent on the channel.
\<close>

lemma run_forwarder_tolerated:
  assumes "list_all tolerated ms"
  shows "run_forwarder (render (JObj ms) @ rest)
     = (None,
        (let es = concat (map elements_of ms); t = foldl token_step [] ms;
             s = (if es = [] then newForwarder
                  else newForwarder\<lparr>posting := True, count := 1,
                         written := [LBrace, LStr ''value'', LColon, LBrack]
                                    @ commas (entry_texts es)\<rparr>)
         in if t = [] then s
            else if es = [] then s\<lparr>draining := True, closed := True, sent := [t]\<rparr>
            else s\<lparr>written := written s @ [RBrack], closed := True, sent := [t]\<rparr>))"
proof -
  let ?es = "concat (map elements_of ms)"
  let ?t = "foldl token_step [] ms"
  let ?s = "foldl forward newForwarder (record_units ?es)"
  have run: "run_forwarder (render (JObj ms) @ rest) = (None, forward ?s (final_unit ?t))"
    unfolding run_forwarder_def NewJSONReviver_def by (rule parse_object [OF assms])
  have s: "?s = (if ?es = [] then newForwarder
                  else newForwarder\<lparr>posting := True, count := 1,
                         written := [LBrace, LStr ''value'', LColon, LBrack]
                                    @ commas (entry_texts ?es)\<rparr>)"
    by (rule forward_records)
  have nf: "\<not> fatal ?s"
    unfolding s by (simp add: newForwarder_def)
  show ?thesis
    unfolding run forward_final [OF nf] unfolding s
    by (simp add: newForwarder_def Write_def Let_def)
qed

text \<open>
  It returns the token when there is one, and never returns when the token is empty.
\<close>

lemma processTransactionLogEntries_tolerated:
  assumes "list_all tolerated ms"
  shows "processTransactionLogEntries (render (JObj ms) @ rest)
     = (if foldl token_step [] ms = [] then Hangs else Returns ([], foldl token_step [] ms))"
  by (simp add: processTransactionLogEntries_def run_forwarder_tolerated [OF assms]
      newForwarder_def Let_def del: render.simps)

text \<open>
  An object that is opened, holds the member \<open>value\<close> with an array, and is not closed
  is no JSON text: the scanner reaches the end of the input.
\<close>

lemma unclosed_object:
  "readValue ([LBrace, LStr ''value'', LColon, LBrack] @ commas (map render vs) @ [RBrack])
     = Inl EOF"
proof -
  have "scan [InObj [] ''value''] XValue (render (JArr vs) @ []) = cont [InObj [] ''value''] (JArr vs) []"
    by (rule scan_render) simp
  then show ?thesis
    by (simp add: readValue_def cont_def)
qed

lemma written_not_well_formed:
  assumes "list_all tolerated ms" "concat (map elements_of ms) \<noteq> []" "foldl token_step [] ms \<noteq> []"
  shows "closed (snd (run_forwarder (render (JObj ms) @ rest)))
       \<and> \<not> well_formed (written (snd (run_forwarder (render (JObj ms) @ rest))))"
proof -
  let ?es = "concat (map elements_of ms)"
  have texts: "entry_texts ?es = map render (map (\<lambda>e. marshal_entry (decoded e)) ?es)"
    by (simp add: entry_texts_def)
  have "snd (run_forwarder (render (JObj ms) @ rest))
      = newForwarder\<lparr>posting := True, count := 1,
          written := [LBrace, LStr ''value'', LColon, LBrack] @ commas (entry_texts ?es) @ [RBrack],
          closed := True, sent := [foldl token_step [] ms]\<rparr>"
    using assms(2,3)
    by (simp only: run_forwarder_tolerated [OF assms(1)] Let_def snd_conv if_False)
      (simp add: newForwarder_def)
  then show ?thesis
    using unclosed_object [of "map (\<lambda>e. marshal_entry (decoded e)) ?es"]
    by (simp only: texts well_formed_def) simp
qed

lemma nothing_written_without_records:
  assumes "list_all tolerated ms" "concat (map elements_of ms) = []"
  shows "written (snd (run_forwarder (render (JObj ms) @ rest))) = []
       \<and> \<not> posting (snd (run_forwarder (render (JObj ms) @ rest)))"
  using assms(2)
  by (simp add: run_forwarder_tolerated [OF assms(1)] newForwarder_def Let_def del: render.simps)

subsection \<open>Encoding an entry and decoding it again\<close>

lemma foldl_update_distinct:
  "distinct (map fst acc) \<Longrightarrow>
   distinct (map fst (foldl (\<lambda>m kv. AList.update (fst kv) (snd kv) m) acc xs))"
  by (induction xs arbitrary: acc) (simp_all add: AList.distinct_update)

lemma update_set: "set (AList.update k v al) \<subseteq> insert (k, v) (set al)"
  by (induction al) auto

lemma foldl_update_set:
  "set (foldl (\<lambda>m kv. AList.update (fst kv) (snd kv) m) acc xs) \<subseteq> set acc \<union> set xs"
proof (induction xs arbitrary: acc)
  case Nil
  show ?case by simp
next
  case (Cons x xs)
  from Cons.IH [of "AList.update (fst x) (snd x) acc"] update_set [of "fst x" "snd x" acc]
  show ?case by auto
qed

lemma update_new: "k \<notin> fst ` set al \<Longrightarrow> AList.update k v al = al @ [(k, v)]"
  by (induction al) auto

lemma foldl_update_id:
  "distinct (map fst (acc @ xs)) \<Longrightarrow>
   foldl (\<lambda>m kv. AList.update (fst kv) (snd kv) m) acc xs = acc @ xs"
proof (induction xs arbitrary: acc)
  case Nil
  show ?case by simp
next
  case (Cons x xs)
  from Cons.prems have "fst x \<notin> fst ` set acc" by auto
  then have "AList.update (fst x) (snd x) acc = acc @ [x]"
    by (simp add: update_new)
  with Cons.IH [of "acc @ [x]"] Cons.prems show ?case by simp
qed

lemma store_all_distinct: "distinct (map fst (store_all xs))"
  by (simp add: store_all_def foldl_update_distinct)

lemma store_all_set: "set (store_all xs) \<subseteq> set xs"
  using foldl_update_set [of "[]" xs] by (simp add: store_all_def)

lemma store_all_id: "distinct (map fst xs) \<Longrightarrow> store_all xs = xs"
  using foldl_update_id [of "[]" xs] by (simp add: store_all_def)

lemma distinct_keys_sort: "distinct (map fst (sort_key fst xs)) = distinct (map fst xs)"
  by (simp add: distinct_map)

lemma canonical_toIface: "canonical (toIface v)"
proof (induction v)
  case (JArr vs)
  then show ?case by (simp add: list_all_iff)
next
  case (JObj ms)
  have "\<forall>m \<in> set (store_all (map (map_prod id toIface) ms)). canonical (snd m)"
    using store_all_set [of "map (map_prod id toIface) ms"] JObj.IH by fastforce
  then show ?case
    by (simp add: distinct_keys_sort store_all_distinct list_all_iff)
qed simp_all

lemma toIface_fromIface: "canonical g \<Longrightarrow> toIface (fromIface g) = g"
proof (induction g)
  case (GSlice vs)
  then show ?case by (simp add: list_all_iff map_idI)
next
  case (GMap ms)
  from GMap.prems have s: "sorted (map fst ms)" and d: "distinct (map fst ms)"
    and c: "\<forall>m \<in> set ms. canonical (snd m)"
    by (auto simp: list_all_iff)
  have keys: "map fst (map (map_prod id fromIface) ms) = map fst ms"
    by simp
  have sorted_text: "sort_key fst (map (map_prod id fromIface) ms) = map (map_prod id fromIface) ms"
    by (rule sort_key_id_if_sorted) (simp only: keys s)
  have round: "map (map_prod id toIface) (map (map_prod id fromIface) ms) = ms"
  proof -
    have "map (\<lambda>m. map_prod id toIface (map_prod id fromIface m)) ms = ms"
    proof (rule map_idI)
      fix m assume m: "m \<in> set ms"
      obtain k g where kg: "m = (k, g)" by (cases m)
      from m kg c have "canonical g" by auto
      with GMap.IH [of m g] m kg have "toIface (fromIface g) = g" by simp
      then show "map_prod id toIface (map_prod id fromIface m) = m"
        by (simp add: kg)
    qed
    then show ?thesis by (simp add: comp_def)
  qed
  have "toIface (fromIface (GMap ms)) = GMap (sort_key fst (store_all ms))"
    by (simp only: fromIface.simps toIface.simps sorted_text round)
  also have "\<dots> = GMap ms"
    by (simp add: store_all_id [OF d] sort_key_id_if_sorted [OF s])
  finally show ?case .
qed simp_all

lemma fits_fromIface: "canonical g \<Longrightarrow> fits (fromIface g)"
proof (induction g)
  case (GSlice vs)
  then show ?case by (simp add: list_all_iff)
next
  case (GMap ms)
  from GMap.prems have c: "\<forall>m \<in> set ms. canonical (snd m)"
    by (auto simp: list_all_iff)
  have "\<forall>m \<in> set ms. fits (fromIface (snd m))"
  proof
    fix m assume m: "m \<in> set ms"
    obtain k g where kg: "m = (k, g)" by (cases m)
    from m kg c have "canonical g" by auto
    with GMap.IH [of m g] m kg show "fits (fromIface (snd m))" by simp
  qed
  then show ?case by (simp add: list_all_iff)
qed simp_all

lemma fold_name_names:
  "fold_name ''ID'' = ''id''"
  "fold_name ''ChangeSetID'' = ''changesetid''"
  "fold_name ''TimeStamp'' = ''timestamp''"
  "fold_name ''ReplicationTime'' = ''replicationtime''"
  "fold_name ''User'' = ''user''"
  "fold_name ''Cube'' = ''cube''"
  "fold_name ''Tuple'' = ''tuple''"
  "fold_name ''OldValue'' = ''oldvalue''"
  "fold_name ''NewValue'' = ''newvalue''"
  "fold_name ''StatusMessage'' = ''statusmessage''"
  by code_simp+

lemma setField_names:
  "setField (ok, e) (''ID'', v)
     = (ok \<and> fst (unmarshal_int v (ID e)), e\<lparr>ID := snd (unmarshal_int v (ID e))\<rparr>)"
  "setField (ok, e) (''ChangeSetID'', v)
     = (ok \<and> fst (unmarshal_string v (ChangeSetID e)),
        e\<lparr>ChangeSetID := snd (unmarshal_string v (ChangeSetID e))\<rparr>)"
  "setField (ok, e) (''TimeStamp'', v)
     = (ok \<and> fst (unmarshal_string v (TimeStamp e)),
        e\<lparr>TimeStamp := snd (unmarshal_string v (TimeStamp e))\<rparr>)"
  "setField (ok, e) (''ReplicationTime'', v)
     = (ok \<and> fst (unmarshal_string v (ReplicationTime e)),
        e\<lparr>ReplicationTime := snd (unmarshal_string v (ReplicationTime e))\<rparr>)"
  "setField (ok, e) (''User'', v)
     = (ok \<and> fst (unmarshal_string v (User e)), e\<lparr>User := snd (unmarshal_string v (User e))\<rparr>)"
  "setField (ok, e) (''Cube'', v)
     = (ok \<and> fst (unmarshal_string v (Cube e)), e\<lparr>Cube := snd (unmarshal_string v (Cube e))\<rparr>)"
  "setField (ok, e) (''Tuple'', v)
     = (ok \<and> fst (unmarshal_strings v (Tuple e)), e\<lparr>Tuple := snd (unmarshal_strings v (Tuple e))\<rparr>)"
  "setField (ok, e) (''OldValue'', v)
     = (ok \<and> fst (unmarshal_iface v (OldValue e)),
        e\<lparr>OldValue := snd (unmarshal_iface v (OldValue e))\<rparr>)"
  "setField (ok, e) (''NewValue'', v)
     = (ok \<and> fst (unmarshal_iface v (NewValue e)),
        e\<lparr>NewValue := snd (unmarshal_iface v (NewValue e))\<rparr>)"
  "setField (ok, e) (''StatusMessage'', v)
     = (ok \<and> fst (unmarshal_iface v (StatusMessage e)),
        e\<lparr>StatusMessage := snd (unmarshal_iface v (StatusMessage e))\<rparr>)"
  unfolding setField_def fst_conv snd_conv fold_name_names Let_def
  by simp_all

lemma unmarshal_strings_back:
  "unmarshal_strings (case ts of None \<Rightarrow> JNull | Some xs \<Rightarrow> JArr (map JStr xs)) x = (True, ts)"
  by (cases ts) (simp_all add: unmarshal_strings_def unmarshal_string_def list_all_iff comp_def)

lemma unmarshal_int_back:
  "- (2 ^ 63) \<le> i \<Longrightarrow> i < 2 ^ 63 \<Longrightarrow> unmarshal_int (JNum (IntLit i)) x = (True, i)"
  by (simp add: unmarshal_int_def)

lemma unmarshal_string_back: "unmarshal_string (JStr s) x = (True, s)"
  by (simp add: unmarshal_string_def)

lemma unmarshal_iface_back: "canonical g \<Longrightarrow> unmarshal_iface (fromIface g) x = (True, g)"
  by (simp add: unmarshal_iface_fits fits_fromIface toIface_fromIface)

lemma unmarshal_iface_canonical: "canonical x \<Longrightarrow> canonical (snd (unmarshal_iface v x))"
  using canonical_toIface [of v] by (cases v) (simp_all add: unmarshal_iface_def)

lemma unmarshal_marshal:
  assumes "canonical_entry r"
  shows "unmarshal_entry (marshal_entry r) zeroEntry = (True, r)"
proof -
  from assms have id: "- (2 ^ 63) \<le> ID r" "ID r < 2 ^ 63"
    and c: "canonical (OldValue r)" "canonical (NewValue r)" "canonical (StatusMessage r)"
    by (simp_all add: canonical_entry_def)
  have "unmarshal_entry (marshal_entry r) zeroEntry
      = (True, zeroEntry\<lparr>ID := ID r, ChangeSetID := ChangeSetID r, TimeStamp := TimeStamp r,
           ReplicationTime := ReplicationTime r, User := User r, Cube := Cube r,
           Tuple := Tuple r, OldValue := OldValue r, NewValue := NewValue r,
           StatusMessage := StatusMessage r\<rparr>)"
    unfolding unmarshal_entry_def marshal_entry_def json.case foldl.simps setField_names
      unmarshal_int_back [OF id] unmarshal_string_back unmarshal_strings_back
      unmarshal_iface_back [OF c(1)] unmarshal_iface_back [OF c(2)] unmarshal_iface_back [OF c(3)]
      fst_conv snd_conv
    by simp
  also have "\<dots> = (True, r)"
    by (cases r) (simp add: zeroEntry_def)
  finally show ?thesis .
qed

lemma unmarshal_int_range:
  "- (2 ^ 63) \<le> x \<Longrightarrow> x < 2 ^ 63 \<Longrightarrow>
   - (2 ^ 63) \<le> snd (unmarshal_int v x) \<and> snd (unmarshal_int v x) < 2 ^ 63"
  by (auto simp: unmarshal_int_def split: json.splits numlit.splits)

lemma setField_canonical:
  assumes "canonical_entry (snd acc)"
  shows "canonical_entry (snd (setField acc m))"
proof -
  from assms have id: "- (2 ^ 63) \<le> ID (snd acc)" "ID (snd acc) < 2 ^ 63"
    and c: "canonical (OldValue (snd acc))" "canonical (NewValue (snd acc))"
      "canonical (StatusMessage (snd acc))"
    by (simp_all add: canonical_entry_def)
  note r = unmarshal_int_range [OF id, of "snd m"]
  show ?thesis
    unfolding setField_def Let_def
    using r c id
    by (simp add: canonical_entry_def unmarshal_iface_canonical)
qed

lemma foldl_setField_canonical:
  "canonical_entry (snd acc) \<Longrightarrow> canonical_entry (snd (foldl setField acc ms))"
  by (induction ms arbitrary: acc) (simp_all add: setField_canonical)

lemma decoded_canonical: "canonical_entry (decoded e)"
proof -
  have z: "canonical_entry (snd (True, zeroEntry))"
    by (simp add: canonical_entry_def zeroEntry_def)
  show ?thesis
    using foldl_setField_canonical [OF z] z
    by (cases e) (simp_all add: decoded_def unmarshal_entry_def)
qed

text \<open>Encoding a decoded entry and decoding it again gives the same entry.\<close>

lemma decode_encoded:
  "decodes (marshal_entry (decoded e)) \<and> decoded (marshal_entry (decoded e)) = decoded e"
  using unmarshal_marshal [OF decoded_canonical, of e]
  by (simp add: decodes_def decoded_def)

subsection \<open>The calls of the callback, for any stream\<close>

text \<open>
  Whatever the stream: a callback is given the units that \<open>collect\<close> records, in that
  order. They are units of Records as the decoder builds them, followed by one final
  unit when the parse returns no error and by none when it returns one.
\<close>

lemma unmarshal_entry_canonical:
  "canonical_entry e \<Longrightarrow> canonical_entry (snd (unmarshal_entry v e))"
  using foldl_setField_canonical [of "(True, e)"]
  by (cases v) (simp_all add: unmarshal_entry_def)

lemma Decode_entry_canonical:
  assumes "Decode unmarshal_entry d zeroEntry = (e, txnLog, d')"
  shows "canonical_entry txnLog"
proof -
  have z: "canonical_entry zeroEntry"
    by (simp add: canonical_entry_def zeroEntry_def)
  from assms z unmarshal_entry_canonical [OF z] show ?thesis
    by (auto simp: Decode_def Let_def split: option.splits sum.splits if_splits prod.splits)
qed

lemma read_elements_trace:
  "read_elements cb d s = (e, d', s') \<Longrightarrow>
   \<exists>rs. list_all canonical_entry rs \<and> s' = foldl cb s (map record_unit rs)
      \<and> (\<forall>acc. read_elements collect d acc = (e, d', acc @ map record_unit rs))"
proof (induction cb d s rule: read_elements.induct)
  case (1 cb d s)
  note unfold = read_elements.simps [of _ d]
  show ?case
  proof (cases "More d")
    case False
    with "1.prems" have "e = None \<and> d' = d \<and> s' = s"
      by (auto simp: unfold)
    with False show ?thesis
      by (intro exI [of _ "[]"]) (simp add: unfold)
  next
    case True
    obtain e1 txnLog d1 where dec: "Decode unmarshal_entry d zeroEntry = (e1, txnLog, d1)"
      by (cases "Decode unmarshal_entry d zeroEntry") auto
    show ?thesis
    proof (cases e1)
      case None
      with True dec "1.prems"
      have rec: "read_elements cb d1
          (cb s \<lparr>TransactionLogEntry = Some txnLog, DeltaLink = []\<rparr>) = (e, d', s')"
        by (simp add: unfold)
      from "1.IH" [OF True dec [symmetric] None refl rec]
      obtain rs where rs: "list_all canonical_entry rs"
        "s' = foldl cb (cb s \<lparr>TransactionLogEntry = Some txnLog, DeltaLink = []\<rparr>)
                (map record_unit rs)"
        "\<forall>acc. read_elements collect d1 acc = (e, d', acc @ map record_unit rs)"
        by blast
      have "list_all canonical_entry (txnLog # rs)"
        using rs(1) Decode_entry_canonical [OF dec] by simp
      moreover have "s' = foldl cb s (map record_unit (txnLog # rs))"
        using rs(2) by (simp add: record_unit_def)
      moreover have "\<forall>acc. read_elements collect d acc
          = (e, d', acc @ map record_unit (txnLog # rs))"
        using True dec None rs(3) by (simp add: unfold collect_def record_unit_def)
      ultimately show ?thesis by blast
    next
      case (Some a)
      with True dec "1.prems" show ?thesis
        by (intro exI [of _ "[]"]) (simp add: unfold)
    qed
  qed
qed

lemma parse_members_trace:
  "parse_members cb d s dl = (e, d', s', dl') \<Longrightarrow>
   \<exists>rs. list_all canonical_entry rs \<and> s' = foldl cb s (map record_unit rs)
      \<and> (\<forall>acc. parse_members collect d acc dl = (e, d', acc @ map record_unit rs, dl'))"
proof (induction cb d s dl rule: parse_members.induct)
  case (1 cb d s dl)
  note unfold = parse_members.simps [of _ d]
  show ?case
  proof (cases "More d")
    case False
    with "1.prems" have "e = None \<and> d' = d \<and> s' = s \<and> dl' = dl"
      by (auto simp: unfold)
    with False show ?thesis
      by (intro exI [of _ "[]"]) (simp add: unfold)
  next
    case True
    obtain r1 d1 where t1: "Token d = (r1, d1)" by (cases "Token d")
    show ?thesis
    proof (cases r1)
      case (Inl a)
      with True t1 "1.prems" show ?thesis
        by (intro exI [of _ "[]"]) (simp add: unfold)
    next
      case (Inr tok)
      obtain dl2 d2 where dd: "decode_deltaLink tok d1 dl = (dl2, d2)"
        by (cases "decode_deltaLink tok d1 dl")
      show ?thesis
      proof (cases "tok \<noteq> Value (GString ''value'')")
        case True
        with \<open>More d\<close> t1 Inr dd "1.prems"
        have rec: "parse_members cb d2 s dl2 = (e, d', s', dl')"
          by (simp add: unfold)
        from "1.IH"(1) [OF \<open>More d\<close> t1 [symmetric] Inr dd [symmetric] True rec]
        obtain rs where rs: "list_all canonical_entry rs"
          "s' = foldl cb s (map record_unit rs)"
          "\<forall>acc. parse_members collect d2 acc dl2 = (e, d', acc @ map record_unit rs, dl')"
          by blast
        have "\<forall>acc. parse_members collect d acc dl = (e, d', acc @ map record_unit rs, dl')"
          using \<open>More d\<close> t1 Inr dd True rs(3) by (simp add: unfold)
        with rs(1,2) show ?thesis by blast
      next
        case False
        obtain r3 d3 where t3: "Token d2 = (r3, d3)" by (cases "Token d2")
        show ?thesis
        proof (cases r3)
          case (Inl a)
          with \<open>More d\<close> t1 Inr dd False t3 "1.prems" show ?thesis
            by (intro exI [of _ "[]"]) (simp add: unfold)
        next
          case tok': (Inr tok')
          show ?thesis
          proof (cases "tok' \<noteq> Delim CHR ''[''")
            case True
            with \<open>More d\<close> t1 Inr dd False t3 tok' "1.prems" show ?thesis
              by (intro exI [of _ "[]"]) (simp add: unfold)
          next
            case open_ok: False
            obtain e4 d4 s4 where re: "read_elements cb d3 s = (e4, d4, s4)"
              by (cases "read_elements cb d3 s") auto
            from read_elements_trace [OF re]
            obtain rs where rs: "list_all canonical_entry rs"
              "s4 = foldl cb s (map record_unit rs)"
              "\<forall>acc. read_elements collect d3 acc = (e4, d4, acc @ map record_unit rs)"
              by blast
            show ?thesis
            proof (cases e4)
              case (Some a)
              with \<open>More d\<close> t1 Inr dd False t3 tok' open_ok re "1.prems"
              have r: "e = Some a \<and> d' = d4 \<and> s' = s4 \<and> dl' = dl2"
                by (auto simp: unfold)
              with \<open>More d\<close> t1 Inr dd False t3 tok' open_ok Some rs show ?thesis
                by (intro exI [of _ rs]) (simp add: unfold)
            next
              case None
              obtain r5 d5 where t5: "Token d4 = (r5, d5)" by (cases "Token d4")
              show ?thesis
              proof (cases r5)
                case (Inl a)
                with \<open>More d\<close> t1 Inr dd False t3 tok' open_ok re None t5 "1.prems" rs
                show ?thesis
                  by (intro exI [of _ rs]) (simp add: unfold)
              next
                case tok'': (Inr tok'')
                show ?thesis
                proof (cases "tok'' \<noteq> Delim CHR '']''")
                  case True
                  with \<open>More d\<close> t1 Inr dd False t3 tok' open_ok re None t5 tok'' "1.prems" rs
                  show ?thesis
                    by (intro exI [of _ rs]) (simp add: unfold)
                next
                  case close_ok: False
                  with \<open>More d\<close> t1 Inr dd False t3 tok' open_ok re None t5 tok'' "1.prems"
                  have rec: "parse_members cb d5 s4 dl2 = (e, d', s', dl')"
                    by (simp add: unfold)
                  from "1.IH"(2) [OF \<open>More d\<close> t1 [symmetric] Inr dd [symmetric] False
                        t3 [symmetric] tok' open_ok re [symmetric] None refl t5 [symmetric]
                        tok'' close_ok rec]
                  obtain rs' where rs': "list_all canonical_entry rs'"
                    "s' = foldl cb s4 (map record_unit rs')"
                    "\<forall>acc. parse_members collect d5 acc dl2
                       = (e, d', acc @ map record_unit rs', dl')"
                    by blast
                  have "list_all canonical_entry (rs @ rs')"
                    using rs(1) rs'(1) by simp
                  moreover have "s' = foldl cb s (map record_unit (rs @ rs'))"
                    using rs(2) rs'(2) by simp
                  moreover have "\<forall>acc. parse_members collect d acc dl
                      = (e, d', acc @ map record_unit (rs @ rs'), dl')"
                    using \<open>More d\<close> t1 Inr dd False t3 tok' open_ok None t5 tok'' close_ok
                      rs(3) rs'(3)
                    by (simp add: unfold)
                  ultimately show ?thesis by blast
                qed
              qed
            qed
          qed
        qed
      qed
    qed
  qed
qed

lemma ParseTransactionLogs_trace:
  assumes "ParseTransactionLogs cb d s = (e, s')"
  shows "\<exists>rs fin. list_all canonical_entry rs
      \<and> (e = None \<and> (\<exists>t. fin = [final_unit t]) \<or> e \<noteq> None \<and> fin = [])
      \<and> s' = foldl cb s (map record_unit rs @ fin)
      \<and> ParseTransactionLogs collect d [] = (e, map record_unit rs @ fin)"
proof -
  obtain r1 d1 where t1: "Token d = (r1, d1)" by (cases "Token d")
  show ?thesis
  proof (cases "r1 = Inr (Delim CHR ''{'')")
    case False
    with assms t1 have "e \<noteq> None \<and> s' = s \<and> ParseTransactionLogs collect d [] = (e, [])"
      unfolding ParseTransactionLogs_def
      by (cases r1) (auto split: if_splits)
    then show ?thesis
      by (intro exI [of _ "[]"]) simp
  next
    case True
    obtain e2 d2 s2 dl2 where pm: "parse_members cb d1 s [] = (e2, d2, s2, dl2)"
      by (cases "parse_members cb d1 s []") auto
    from parse_members_trace [OF pm]
    obtain rs where rs: "list_all canonical_entry rs"
      "s2 = foldl cb s (map record_unit rs)"
      "\<forall>acc. parse_members collect d1 acc [] = (e2, d2, acc @ map record_unit rs, dl2)"
      by blast
    show ?thesis
    proof (cases e2)
      case (Some a)
      with assms t1 True pm have "e = Some a" "s' = s2"
        unfolding ParseTransactionLogs_def by simp_all
      moreover have "ParseTransactionLogs collect d [] = (Some a, map record_unit rs)"
        unfolding ParseTransactionLogs_def using t1 True rs(3) Some by simp
      ultimately show ?thesis
        using rs(1,2) by (intro exI [of _ rs] exI [of _ "[]"]) simp
    next
      case None
      obtain r3 d3 where t3: "Token d2 = (r3, d3)" by (cases "Token d2")
      show ?thesis
      proof (cases "r3 = Inr (Delim CHR ''}'')")
        case closed: True
        with assms t1 True pm None t3 have "e = None" "s' = cb s2 (final_unit dl2)"
          unfolding ParseTransactionLogs_def by (simp_all add: final_unit_def)
        moreover have "ParseTransactionLogs collect d []
            = (None, map record_unit rs @ [final_unit dl2])"
          unfolding ParseTransactionLogs_def using t1 True rs(3) None t3 closed
          by (simp add: final_unit_def collect_def)
        ultimately show ?thesis
          using rs(1,2) by (intro exI [of _ rs] exI [of _ "[final_unit dl2]"]) auto
      next
        case False
        with assms t1 True pm None t3 have "e \<noteq> None \<and> s' = s2"
          unfolding ParseTransactionLogs_def
          by (cases r3) (auto split: if_splits)
        moreover have "ParseTransactionLogs collect d [] = (e, map record_unit rs)"
          using assms t1 True pm None t3 False rs(3)
          unfolding ParseTransactionLogs_def
          by (cases r3) (auto split: if_splits)
        ultimately show ?thesis
          using rs(1,2) by (intro exI [of _ rs] exI [of _ "[]"]) simp
      qed
    qed
  qed
qed


subsection \<open>Parsing again what the forwarder has written\<close>

lemma parse_members_eof:
  "parse_members cb (at [] ts stk) s dl = (None, at [] ts stk, s, dl)"
  by (subst parse_members.simps) (simp add: More_def)

lemma Token_eof: "Token (at [] ts stk) = (Inl EOF, at [] ts stk)"
  by (subst Token.simps) simp

text \<open>
  The parser on an object that holds the member \<open>value\<close> and is not closed: it delivers
  the Records and then fails where it requires the closing brace.
\<close>

lemma parse_unclosed_object:
  assumes "list_all decodes vs"
  shows "ParseTransactionLogs cb
           (NewDecoder ([LBrace, LStr ''value'', LColon, LBrack] @ commas (map render vs) @ [RBrack])) s
         = (Some (DecoderError EOF), foldl cb s (record_units vs))"
proof -
  have body: "[LStr ''value'', LColon, LBrack] @ commas (map render vs) @ [RBrack]
      = member_of (''value'', JArr vs) @ []"
    by (simp add: member_of_def)
  have "parse_members cb (at (member_of (''value'', JArr vs) @ []) tokenObjectStart [tokenTopValue]) s []
      = (None, at [] tokenObjectComma [tokenTopValue], foldl cb s (record_units vs), [])"
    by (simp only: parse_members_value [OF _ assms] parse_members_eof simp_thms)
  then show ?thesis
    unfolding ParseTransactionLogs_def append_Cons append_Nil Token_object_start
    using body by (simp add: Token_eof del: render.simps)
qed

text \<open>
  On such an object whose array is not closed either, which is what the forwarder has
  written when it is given no token: the Records, then the error where the parser
  requires the closing bracket.
\<close>

lemma read_elements_eof: "read_elements cb (at [] ts stk) s = (None, at [] ts stk, s)"
  by (subst read_elements.simps) (simp add: More_def)

lemma read_elements_unclosed:
  assumes "list_all decodes vs" "vs \<noteq> []"
  shows "read_elements cb (at (commas (map render vs)) tokenArrayStart stk) s
       = (None, at [] tokenArrayComma stk, foldl cb s (record_units vs))"
proof -
  from assms(2) obtain e es where vs: "vs = e # es" by (cases vs) auto
  from assms(1) have d: "decodes e" "list_all decodes es"
    by (simp_all add: vs)
  have "read_elements cb (at (render e @ seq_text (map render es) @ []) tokenArrayStart stk) s
      = (None, at [] tokenArrayComma stk, foldl cb s (record_units vs))"
    unfolding vs
    by (simp only: read_elements_first read_elements_seq [OF d(2)] read_elements_eof d(1)
        if_True record_units_simps foldl.simps)
  then show ?thesis
    by (simp add: vs commas_Cons)
qed

lemma parse_unclosed_array:
  assumes "list_all decodes vs" "vs \<noteq> []"
  shows "ParseTransactionLogs cb
           (NewDecoder ([LBrace, LStr ''value'', LColon, LBrack] @ commas (map render vs))) s
         = (Some (DecoderError EOF), foldl cb s (record_units vs))"
proof -
  have "parse_members cb
          (at (LStr ''value'' # LColon # LBrack # commas (map render vs))
             tokenObjectStart [tokenTopValue]) s []
      = (Some (DecoderError EOF), at [] tokenArrayComma [tokenObjectValue, tokenTopValue],
         foldl cb s (record_units vs), [])"
    apply (subst parse_members.simps)
    by (simp add: More_def Token_key decode_deltaLink_def Token_array_start
        read_elements_unclosed [OF assms] Token_eof)
  then show ?thesis
    unfolding ParseTransactionLogs_def append_Cons append_Nil Token_object_start
    by simp
qed

lemma parse_nothing:
  "ParseTransactionLogs cb (NewDecoder []) s = (Some (DecoderError EOF), s)"
  by (simp add: ParseTransactionLogs_def NewDecoder_def Token_eof)

lemma record_units_encoded:
  "record_units (map (\<lambda>e. marshal_entry (decoded e)) es) = record_units es"
  by (induction es) (simp_all add: decode_encoded)

lemma encoded_decode: "list_all decodes (map (\<lambda>e. marshal_entry (decoded e)) es)"
  by (induction es) (simp_all add: decode_encoded)

text \<open>
  Parsing again what the forwarder has written for a body with Records and a token:
  the same Records, then the error, and no final unit.
\<close>

lemma reparse_of_written:
  assumes "list_all tolerated ms" "concat (map elements_of ms) \<noteq> []" "foldl token_step [] ms \<noteq> []"
  shows "ParseTransactionLogs collect
           (NewJSONReviver (written (snd (run_forwarder (render (JObj ms) @ rest))))) []
         = (Some (DecoderError EOF), record_units (concat (map elements_of ms)))"
proof -
  let ?es = "concat (map elements_of ms)"
  let ?vs = "map (\<lambda>e. marshal_entry (decoded e)) ?es"
  have texts: "entry_texts ?es = map render ?vs"
    by (simp add: entry_texts_def)
  have "written (snd (run_forwarder (render (JObj ms) @ rest)))
      = [LBrace, LStr ''value'', LColon, LBrack] @ commas (map render ?vs) @ [RBrack]"
    using assms(2,3)
    by (simp only: run_forwarder_tolerated [OF assms(1)] Let_def snd_conv if_False texts)
      (simp add: newForwarder_def)
  then show ?thesis
    using parse_unclosed_object [OF encoded_decode, of collect ?es "[]"]
    by (simp only: NewJSONReviver_def record_units_encoded foldl_collect append_Nil)
qed

text \<open>
  The forwarder on the units of any parse: Records as the decoder builds them, then
  at most one final unit.
\<close>

lemma marshalled_decodes:
  "list_all canonical_entry rs \<Longrightarrow>
   list_all decodes (map marshal_entry rs) \<and> record_units (map marshal_entry rs) = map record_unit rs"
  by (induction rs) (simp_all add: decodes_def decoded_def unmarshal_marshal)

lemma forward_units_later:
  "\<not> fatal s \<Longrightarrow> \<not> closed s \<Longrightarrow> count s \<noteq> 0 \<Longrightarrow>
   foldl forward s (map record_unit rs)
     = s\<lparr>written := written s @ seq_text (map render (map marshal_entry rs))\<rparr>"
  by (induction rs arbitrary: s) (simp_all add: forward_record)

lemma forward_units:
  "foldl forward newForwarder (map record_unit rs)
     = (if rs = [] then newForwarder
        else newForwarder\<lparr>posting := True, count := 1,
               written := [LBrace, LStr ''value'', LColon, LBrack]
                          @ commas (map render (map marshal_entry rs))\<rparr>)"
proof (cases rs)
  case Nil
  then show ?thesis by simp
next
  case (Cons r rs')
  then show ?thesis
    by (simp add: forward_record forward_units_later newForwarder_def commas_Cons)
qed

lemma written_of_units:
  assumes "fin = [] \<or> (\<exists>t. fin = [final_unit t])"
  shows "written (foldl forward newForwarder (map record_unit rs @ fin))
     = (if rs = [] then []
        else [LBrace, LStr ''value'', LColon, LBrack] @ commas (map render (map marshal_entry rs))
             @ (if closed (foldl forward newForwarder (map record_unit rs @ fin))
                then [RBrack] else []))"
proof -
  let ?s = "foldl forward newForwarder (map record_unit rs)"
  have s: "?s = (if rs = [] then newForwarder
        else newForwarder\<lparr>posting := True, count := 1,
               written := [LBrace, LStr ''value'', LColon, LBrack]
                          @ commas (map render (map marshal_entry rs))\<rparr>)"
    by (rule forward_units)
  have nf: "\<not> fatal ?s"
    unfolding s by (simp add: newForwarder_def)
  from assms show ?thesis
  proof
    assume "fin = []"
    then have "foldl forward newForwarder (map record_unit rs @ fin) = ?s"
      by simp
    then show ?thesis
      unfolding s by (simp add: newForwarder_def)
  next
    assume "\<exists>t. fin = [final_unit t]"
    then obtain t where t: "fin = [final_unit t]" by blast
    have "foldl forward newForwarder (map record_unit rs @ fin) = forward ?s (final_unit t)"
      by (simp add: t)
    then show ?thesis
      unfolding forward_final [OF nf] unfolding s
      by (simp add: newForwarder_def Write_def)
  qed
qed

lemma records_of_units:
  "fin = [] \<or> (\<exists>t. fin = [final_unit t]) \<Longrightarrow> records_of (map record_unit rs @ fin) = rs"
  by (induction rs) (auto simp: records_of_def record_unit_def final_unit_def)

text \<open>
  Whatever the stream, parsing what the forwarder has written ends in the error of a
  text that stops early, after the units of the Records that the first parse delivered.
\<close>

lemma reparse_any_stream:
  "ParseTransactionLogs collect (NewJSONReviver (written (snd (run_forwarder stream)))) []
     = (Some (DecoderError EOF),
        map record_unit (records_of (snd (ParseTransactionLogs collect (NewJSONReviver stream) []))))"
proof -
  obtain e s' where run: "ParseTransactionLogs forward (NewJSONReviver stream) newForwarder = (e, s')"
    by (cases "ParseTransactionLogs forward (NewJSONReviver stream) newForwarder") auto
  from ParseTransactionLogs_trace [OF run]
  obtain rs fin where rs: "list_all canonical_entry rs"
    and fin: "fin = [] \<or> (\<exists>t. fin = [final_unit t])"
    and s': "s' = foldl forward newForwarder (map record_unit rs @ fin)"
    and tr: "ParseTransactionLogs collect (NewJSONReviver stream) [] = (e, map record_unit rs @ fin)"
    by blast
  let ?vs = "map marshal_entry rs"
  from marshalled_decodes [OF rs]
  have dec: "list_all decodes ?vs" and units: "record_units ?vs = map record_unit rs"
    by simp_all
  have first: "records_of (snd (ParseTransactionLogs collect (NewJSONReviver stream) [])) = rs"
    by (simp add: tr records_of_units [OF fin])
  have w: "written (snd (run_forwarder stream))
      = (if rs = [] then []
         else [LBrace, LStr ''value'', LColon, LBrack] @ commas (map render ?vs)
              @ (if closed s' then [RBrack] else []))"
    unfolding run_forwarder_def run snd_conv s' by (rule written_of_units [OF fin])
  show ?thesis
  proof (cases "rs = []")
    case True
    then show ?thesis
      by (simp add: w first [unfolded NewJSONReviver_def] NewJSONReviver_def parse_nothing)
  next
    case False
    have "ParseTransactionLogs collect (NewDecoder (written (snd (run_forwarder stream)))) []
        = (Some (DecoderError EOF), foldl collect [] (record_units ?vs))"
    proof (cases "closed s'")
      case True
      with False w have "written (snd (run_forwarder stream))
          = [LBrace, LStr ''value'', LColon, LBrack] @ commas (map render ?vs) @ [RBrack]"
        by simp
      then show ?thesis
        by (simp only: parse_unclosed_object [OF dec])
    next
      case unclosed: False
      from False have ne: "?vs \<noteq> []" by simp
      from unclosed False w have "written (snd (run_forwarder stream))
          = [LBrace, LStr ''value'', LColon, LBrack] @ commas (map render ?vs)"
        by simp
      then show ?thesis
        by (simp only: parse_unclosed_array [OF dec ne])
    qed
    then show ?thesis
      by (simp only: NewJSONReviver_def units first [unfolded NewJSONReviver_def]
          foldl_collect append_Nil)
  qed
qed

subsection \<open>Facts about the examples\<close>











text \<open>
  An element with the number \<open>1e400\<close> under \<open>OldValue\<close> does not decode, also inside an
  array; neither does an element whose member \<open>User\<close>, written with a long s, holds a
  number.
\<close>

lemma out_of_range_number_fails:
  "\<not> decodes (JObj [(''ID'', JNum (IntLit 2)), (''OldValue'', JNum (FracLit 1 400))])"
  "\<not> decodes (JObj [(''NewValue'', JArr [JNum (IntLit 1), JNum (FracLit 1 400)])])"
  "decodes (JObj [(''OldValue'', JNum (FracLit 17 307))])"
  by code_simp+

lemma folded_name_matches:
  "\<not> decodes (JObj [([CHR ''U'', CHR 0xC5, CHR 0xBF, CHR ''e'', CHR ''r''], JNum (IntLit 1))])"
  "decoded (JObj [([CHR ''U'', CHR 0xC5, CHR 0xBF, CHR ''e'', CHR ''r''], JStr ''ann'')])
     = zeroEntry\<lparr>User := ''ann''\<rparr>"
  by code_simp+




section \<open>Properties\<close>

subsection \<open>The forwarder\<close>

text \<open>
  C1. For every response body whose parse completes successfully, the forwarder delivers
  the continuation token to the poll loop through the channel exactly once, so that
  processTransactionLogEntries returns, also when the token is the empty string. The
  comment at line 104 says so (``even an empty string''), but the send is guarded by
  \<open>DeltaLink != ""\<close> (line 78): for the body \<open>{"value":[]}\<close> the parse succeeds, nothing is
  sent, and the call never returns.
\<close>

theorem empty_token_never_delivered:
  "fst (run_forwarder empty_collection) = None
   \<and> sent (snd (run_forwarder empty_collection)) = []
   \<and> processTransactionLogEntries empty_collection = Hangs"
  by code_simp

text \<open>
  C2. When the forwarder closes the pipe for writing, what it has written is well-formed
  JSON of the shape \<open>{"value":[e1, ..., en]}\<close>. The forwarder opens with
  \<open>{ "value": [\<close> and closes with \<open>]\<close> only: the brace that ends the object is never
  written, and the scanner finds the end of the input inside the value.
\<close>

theorem closing_brace_never_written:
  "closed (snd (run_forwarder one_record))
   \<and> written (snd (run_forwarder one_record))
       = [LBrace, LStr ''value'', LColon, LBrack]
         @ render (marshal_entry (zeroEntry\<lparr>ID := 1\<rparr>)) @ [RBrack]
   \<and> readValue (written (snd (run_forwarder one_record))) = Inl EOF
   \<and> \<not> well_formed (written (snd (run_forwarder one_record)))"
  by code_simp

text \<open>
  C8. For every body, parsing what the forwarder has written for it, with the same
  parser, delivers the same Records in the same order as the first parse did. This
  holds for every stream: for a body with no Record (nothing is written), for a body
  that the first parse gives up on midway, and for a body without a token (the array is
  left open). The second parse delivers the Records and then returns an error, since
  what the forwarder has written is never a closed object; the first parse may have
  returned none.
\<close>

theorem reparse_delivers_same_records:
  "records_of (snd (ParseTransactionLogs collect
                      (NewJSONReviver (written (snd (run_forwarder stream)))) []))
     = records_of (snd (ParseTransactionLogs collect (NewJSONReviver stream) []))"
proof -
  have "records_of (map record_unit rs) = rs" for rs
    using records_of_units [of "[]" rs] by simp
  then show ?thesis
    by (simp add: reparse_any_stream)
qed

subsection \<open>The poll loop\<close>

lemma first_event:
  "urlStr \<noteq> [] \<Longrightarrow>
   \<exists>evs. fst (TrackCollection (Suc n) client root urlStr interval w)
     = Sent (fst (ExecuteGETRequestEx client w (root @ urlStr) track_changes)) # evs"
  by (auto simp: iteration_def ExecuteGETRequestEx_def Let_def
      split: prod.splits option.splits run.splits progress.splits)

text \<open>
  C4. In a pass of the poll loop whose response has been processed: a non-empty
  next-link is requested at once, with no sleep; otherwise a non-empty delta-link is
  requested after a sleep of the configured interval; and the pass ends the loop
  exactly when both are empty. The next-link wins when both are present.
\<close>

theorem poll_loop_next_request:
  assumes "urlStr \<noteq> []"
    and "ExecuteGETRequestEx client w (serviceRootURL @ urlStr) track_changes = (req, Some resp, w')"
    and "processorFunc client (Body resp) = Returns (nextLink, deltaLink)"
  shows "(nextLink \<noteq> [] \<longrightarrow>
            (\<exists>evs. fst (TrackCollection (Suc (Suc n)) client serviceRootURL urlStr interval w)
               = Sent req
                 # Sent (fst (ExecuteGETRequestEx client w' (serviceRootURL @ nextLink) track_changes))
                 # evs))
       \<and> (nextLink = [] \<and> deltaLink \<noteq> [] \<longrightarrow>
            (\<exists>evs. fst (TrackCollection (Suc (Suc n)) client serviceRootURL urlStr interval w)
               = Sent req # Slept interval
                 # Sent (fst (ExecuteGETRequestEx client w' (serviceRootURL @ deltaLink) track_changes))
                 # evs))
       \<and> (nextLink = [] \<and> deltaLink = [] \<longrightarrow>
            TrackCollection (Suc (Suc n)) client serviceRootURL urlStr interval w
              = ([Sent req], LoopExit))
       \<and> (snd (iteration client serviceRootURL interval urlStr w) = LoopExit
            \<longleftrightarrow> nextLink = [] \<and> deltaLink = [])"
proof -
  have it: "iteration client serviceRootURL interval urlStr w =
      (if nextLink \<noteq> [] then ([Sent req], Again nextLink w')
       else if deltaLink \<noteq> [] then ([Sent req, Slept interval], Again deltaLink w')
       else ([Sent req], LoopExit))"
    using assms(2,3) by (simp add: iteration_def)
  have unfold: "TrackCollection (Suc (Suc n)) client serviceRootURL urlStr interval w =
      (case iteration client serviceRootURL interval urlStr w of
         (evs, Again urlStr' w') \<Rightarrow>
           (case TrackCollection (Suc n) client serviceRootURL urlStr' interval w' of
              (evs', p) \<Rightarrow> (evs @ evs', p))
       | (evs, p) \<Rightarrow> (evs, p))"
    using assms(1) by (simp del: TrackCollection.simps add: TrackCollection.simps(2) [of "Suc n"])
  have a: ?thesis if "nextLink \<noteq> []"
  proof -
    from first_event [OF that, of n client serviceRootURL interval w']
    obtain evs where "fst (TrackCollection (Suc n) client serviceRootURL nextLink interval w')
      = Sent (fst (ExecuteGETRequestEx client w' (serviceRootURL @ nextLink) track_changes)) # evs"
      by blast
    with that it unfold show ?thesis
      by (auto simp del: TrackCollection.simps split: prod.splits)
  qed
  have b: ?thesis if "nextLink = []" "deltaLink \<noteq> []"
  proof -
    from first_event [OF that(2), of n client serviceRootURL interval w']
    obtain evs where "fst (TrackCollection (Suc n) client serviceRootURL deltaLink interval w')
      = Sent (fst (ExecuteGETRequestEx client w' (serviceRootURL @ deltaLink) track_changes)) # evs"
      by blast
    with that it unfold show ?thesis
      by (auto simp del: TrackCollection.simps split: prod.splits)
  qed
  have c: ?thesis if "nextLink = []" "deltaLink = []"
    using that it unfold by (simp del: TrackCollection.simps)
  from a b c show ?thesis by blast
qed

theorem poll_loop_next_request_witness:
  "\<exists>evs. fst (TrackCollection (Suc (Suc 0)) (fixed_server 200 ''200 OK'' one_record)
                 ''http://h/'' ''Logs'' 5 ())
     = Sent (track_changes \<lparr>Method = ''GET'', URL = ''http://h/Logs'',
              Header = [(''OData-Version'', ''4.0''), (''Accept'', ''application/json'')]\<rparr>)
       # Slept 5
       # Sent (track_changes \<lparr>Method = ''GET'', URL = ''http://h/T2'',
              Header = [(''OData-Version'', ''4.0''), (''Accept'', ''application/json'')]\<rparr>)
       # evs"
proof -
  let ?c = "fixed_server 200 ''200 OK'' one_record"
  let ?req = "track_changes \<lparr>Method = ''GET'', URL = ''http://h/Logs'',
              Header = [(''OData-Version'', ''4.0''), (''Accept'', ''application/json'')]\<rparr>"
  have h1: "''Logs'' \<noteq> []" by simp
  have h2: "ExecuteGETRequestEx ?c () (''http://h/'' @ ''Logs'') track_changes
      = (?req, Some \<lparr>StatusCode = 200, Status = ''200 OK'', Body = one_record\<rparr>, ())"
    by (simp add: ExecuteGETRequestEx_def fixed_server_def)
  have h3: "processorFunc ?c (Body \<lparr>StatusCode = 200, Status = ''200 OK'', Body = one_record\<rparr>)
      = Returns ([], ''T2'')"
    by code_simp
  from poll_loop_next_request [OF h1 h2 h3, of 0 5]
  show ?thesis
    by (simp add: ExecuteGETRequestEx_def Let_def del: TrackCollection.simps)
qed

text \<open>
  Whenever processTransactionLogEntries returns, the next-link it returns is the empty
  string and the delta-link is not; so a pass of the poll loop in which it returns
  takes neither the branch of the next-link nor the exit: it sleeps and goes on.
\<close>

lemma forward_sent:
  "\<forall>t \<in> set (sent s). t \<noteq> [] \<Longrightarrow> \<forall>t \<in> set (sent (forward s c)). t \<noteq> []"
  by (auto simp: forward_def on_entry_def on_deltaLink_def Encode_def Write_def Let_def
      split: option.splits if_splits)

lemma foldl_forward_sent:
  "\<forall>t \<in> set (sent s). t \<noteq> [] \<Longrightarrow> \<forall>t \<in> set (sent (foldl forward s cs)). t \<noteq> []"
proof (induction cs arbitrary: s)
  case Nil
  then show ?case by simp
next
  case (Cons c cs)
  from Cons.IH [OF forward_sent [OF Cons.prems, of c]] show ?case by simp
qed

lemma returned_links:
  assumes "processTransactionLogEntries stream = Returns (nextLink, deltaLink)"
  shows "nextLink = [] \<and> deltaLink \<noteq> []"
proof -
  obtain e s' where run: "run_forwarder stream = (e, s')"
    by (cases "run_forwarder stream")
  from ParseTransactionLogs_trace [OF run [unfolded run_forwarder_def]]
  obtain us where "s' = foldl forward newForwarder us"
    by blast
  with foldl_forward_sent [of newForwarder us] have "\<forall>t \<in> set (sent s'). t \<noteq> []"
    by (simp add: newForwarder_def)
  with assms run show ?thesis
    by (auto simp: processTransactionLogEntries_def split: list.splits if_splits)
qed

lemma pass_with_return:
  assumes "processorFunc client = processTransactionLogEntries"
    and "ExecuteGETRequestEx client w (serviceRootURL @ urlStr) track_changes = (req, Some resp, w')"
    and "processTransactionLogEntries (Body resp) = Returns (nextLink, deltaLink)"
  shows "iteration client serviceRootURL interval urlStr w
     = ([Sent req, Slept interval], Again deltaLink w')"
  using assms returned_links [OF assms(3)] by (simp add: iteration_def)

text \<open>
  C9. The next-link that processTransactionLogEntries returns is always the empty
  string; so the poll loop driven by it never takes the branch of the next-link, and a
  pass always either sleeps before the next request or ends the loop or the process.
  The first part holds whenever the call returns. It does not always return: for the
  body \<open>{"value":[]}\<close> the pass has sent its request and then waits for ever for the
  token, with no sleep and no end. This is the missing send of C1 seen from the loop.
\<close>

theorem pass_blocks_without_token:
  "iteration (fixed_server 200 ''200 OK'' empty_collection) ''http://h/'' 5 ''Logs'' ()
     = ([Sent (track_changes \<lparr>Method = ''GET'', URL = ''http://h/Logs'',
              Header = [(''OData-Version'', ''4.0''), (''Accept'', ''application/json'')]\<rparr>)],
        Blocked)
   \<and> TrackCollection 3 (fixed_server 200 ''200 OK'' empty_collection) ''http://h/'' ''Logs'' 5 ()
     = ([Sent (track_changes \<lparr>Method = ''GET'', URL = ''http://h/Logs'',
              Header = [(''OData-Version'', ''4.0''), (''Accept'', ''application/json'')]\<rparr>)],
        Blocked)"
  by code_simp

text \<open>
  The poll loop does the same whatever the status of the responses to its requests,
  and so does the goroutine of the POST request.
\<close>

lemma iteration_with_status:
  "iteration (with_status code text client) root interval urlStr w
     = iteration client root interval urlStr w"
  by (auto simp: iteration_def ExecuteGETRequestEx_def with_status_def Let_def
      split: prod.splits option.splits)

lemma TrackCollection_with_status:
  "TrackCollection n (with_status code text client) serviceRootURL urlStr interval w
     = TrackCollection n client serviceRootURL urlStr interval w"
  by (induction n arbitrary: urlStr w) (simp_all add: iteration_with_status)

lemma post_goroutine_with_status:
  "post_goroutine (with_status code text client) w = post_goroutine client w"
  by (auto simp: post_goroutine_def ExecutePOSTRequest_def with_status_def Let_def
      split: prod.splits option.splits)

text \<open>
  C3. Every response with a status outside 2xx to a GET of the poll loop or to the POST
  is fatal for that cycle, with a log that includes the status and the body of the
  response. The main program does this for its own GET, through ValidateStatusCode;
  the poll loop and the goroutine of the POST never look at the status. A response
  with status 500 to the GET of the loop is processed as any other and the loop goes
  on to the next poll, and a response with status 500 to the POST is dropped.
\<close>

theorem non_success_status_not_fatal:
  "iteration (fixed_server 500 ''500 Internal Server Error'' one_record) ''http://h/'' 5 ''Logs'' ()
     = ([Sent (track_changes \<lparr>Method = ''GET'', URL = ''http://h/Logs'',
              Header = [(''OData-Version'', ''4.0''), (''Accept'', ''application/json'')]\<rparr>),
         Slept 5],
        Again ''T2'' ())
   \<and> post_goroutine (fixed_server 500 ''500 Internal Server Error'' one_record) ()
     = ([Sent \<lparr>Method = ''POST'', URL = ''http://localhost:12345'',
              Header = [(''Content-Type'', ''application/json''), (''OData-Version'', ''4.0''),
                        (''Accept'', ''application/json'')]\<rparr>],
        Returns ())
   \<and> ValidateStatusCode
        \<lparr>StatusCode = 500, Status = ''500 Internal Server Error'', Body = ''oops''\<rparr> 200 ''Unexpected.''
     = Some (''Unexpected.'' @ [CHR 0x0D, CHR 0x0A] @ ''Server responded with: ''
             @ ''500 Internal Server Error'' @ [CHR 0x0D, CHR 0x0A] @ ''oops'')"
  by code_simp

subsection \<open>The parser\<close>











end
